theory Spec2Isabelle
  imports Main "HOL-Library.Sublist"
begin

section \<open>Exceptions\<close>

text \<open>
  The exception classes the three source files name. An exception value carries its
  class and the text \<open>str(e)\<close> that the f-strings of the source print.

  \<open>KeyboardInterrupt\<close> is the only class here that does not derive from
  \<open>Exception\<close>. In \<open>prawcore.exceptions\<close> the classes \<open>Forbidden\<close>,
  \<open>NotFound\<close>, \<open>InvalidToken\<close>, \<open>ServerError\<close> and \<open>BadRequest\<close>
  derive from \<open>ResponseException\<close>; \<open>OAuthException\<close> and
  \<open>RequestException\<close> do not. \<open>Other_Exception\<close> stands for any other
  subclass of \<open>Exception\<close>.
\<close>

datatype exn_class =
    KeyboardInterrupt
  | Forbidden
  | NotFound
  | OAuthException
  | InvalidToken
  | RequestException
  | ResponseException
  | ServerError
  | BadRequest
  | ValueError
  | RuntimeError
  | Other_Exception

datatype exn = Exn (cls: exn_class) (msg: string)

fun base_class :: "exn_class \<Rightarrow> exn_class option" where
  "base_class Forbidden = Some ResponseException"
| "base_class NotFound = Some ResponseException"
| "base_class InvalidToken = Some ResponseException"
| "base_class ServerError = Some ResponseException"
| "base_class BadRequest = Some ResponseException"
| "base_class _ = None"

definition isinstance :: "exn \<Rightarrow> exn_class \<Rightarrow> bool" where
  "isinstance e c = (cls e = c \<or> base_class (cls e) = Some c)"

definition is_Exception :: "exn \<Rightarrow> bool" where
  "is_Exception e = (cls e \<noteq> KeyboardInterrupt)"

section \<open>reddit\_listener.py: initialize\_reddit\<close>

text \<open>
  \<open>os.getenv\<close> after \<open>load_dotenv()\<close> is a partial map from names to values.
  The constructor \<open>praw.Reddit\<close> and the call \<open>reddit.user.me()\<close> belong to
  the PRAW library; they are parameters of the model, each returning a value or the
  exception it raises. The call \<open>reddit.user.me()\<close> is the function's network call
  and is recorded in the trace.
\<close>

record credentials =
  client_id :: "string option"
  client_secret :: "string option"
  user_agent :: "string option"
  username :: "string option"
  password :: "string option"

record submission =
  sub_subreddit :: string
  sub_title :: string
  sub_permalink :: string

record comment =
  com_subreddit :: string
  com_body :: string
  com_permalink :: string

datatype item = Submission submission | Comment comment | Unrecognised

datatype event =
    Call_user_me
  | Yield item
  | Sleep int
  | Idle_sleep
  | Poll_running bool
  | Put string

text \<open>The list the source builds at lines 40-46. Nothing in the function reads it.\<close>

definition required_env_vars :: "string list" where
  "required_env_vars =
     [''REDDIT_CLIENT_ID'', ''REDDIT_CLIENT_SECRET'', ''REDDIT_USER_AGENT'',
      ''REDDIT_USERNAME'', ''REDDIT_PASSWORD'']"

definition auth_failures :: "exn_class list" where
  "auth_failures =
     [OAuthException, InvalidToken, Forbidden, BadRequest, ResponseException,
      RequestException, ServerError]"

definition initialize_reddit ::
  "(string \<Rightarrow> string option) \<Rightarrow> (credentials \<Rightarrow> exn + 'r) \<Rightarrow> ('r \<Rightarrow> exn + string)
     \<Rightarrow> event list \<times> (exn + 'r)" where
  "initialize_reddit getenv praw_Reddit user_me =
     (case praw_Reddit
            \<lparr>client_id = getenv ''REDDIT_CLIENT_ID'',
             client_secret = getenv ''REDDIT_CLIENT_SECRET'',
             user_agent = getenv ''REDDIT_USER_AGENT'',
             username = getenv ''REDDIT_USERNAME'',
             password = getenv ''REDDIT_PASSWORD''\<rparr> of
        Inl e \<Rightarrow> ([], Inl e)
      | Inr reddit \<Rightarrow>
          (case user_me reddit of
             Inr me \<Rightarrow> ([Call_user_me], Inr reddit)
           | Inl e \<Rightarrow>
               if list_ex (isinstance e) auth_failures
               then ([Call_user_me],
                     Inl (Exn RuntimeError
                            (''Failed to verify Reddit authentication: '' @ msg e)))
               else ([Call_user_me], Inl e)))"

section \<open>reddit\_listener.py: stream\_reddit\_activity\<close>

text \<open>
  A stream object of PRAW opened with \<open>pause_after=0\<close> answers each \<open>next\<close> with
  an item, with \<open>None\<close> when a fetch brought nothing new, or by raising. The remote
  side is a script: for each pass through the outer \<open>while True\<close>, either the
  exception raised while the two stream objects are built, or the answers the two
  fresh stream objects will give. The observation ends (\<open>Waiting\<close>) where the
  script does: the generator is then inside a call that has not returned.
\<close>

datatype 'a resp = Item 'a | Pause | Raise exn

datatype connection =
    Open_fails exn
  | Streams "submission resp list" "comment resp list"

datatype outcome = Raised exn | Waiting

definition max_backoff_seconds :: int where
  "max_backoff_seconds = 120"

text \<open>
  \<open>int(backoff_seconds * 1.5)\<close>: the product is exact in binary floating point for
  every integer below \<open>2^51\<close> in absolute value, and \<open>int\<close> truncates towards
  zero.
\<close>

definition int_times_1_5 :: "int \<Rightarrow> int" where
  "int_times_1_5 b = (if 0 \<le> b then (b * 3) div 2 else - ((- b * 3) div 2))"

text \<open>
  The five \<open>except\<close> clauses of lines 122-147, in the source's order. A clause
  either re-raises, or sleeps and lets the outer loop go round again with a value
  of \<open>backoff_seconds\<close>.
\<close>

datatype clause = Interrupt | Access | Authentication | Transient | Unexpected

definition matching_clause :: "exn \<Rightarrow> clause" where
  "matching_clause e =
     (if isinstance e KeyboardInterrupt then Interrupt
      else if isinstance e Forbidden \<or> isinstance e NotFound then Access
      else if isinstance e OAuthException \<or> isinstance e InvalidToken then Authentication
      else if isinstance e RequestException \<or> isinstance e ResponseException
              \<or> isinstance e ServerError then Transient
      else Unexpected)"

datatype handled = Reraise | Retry int int

definition except_clauses :: "exn \<Rightarrow> int \<Rightarrow> handled" where
  "except_clauses e backoff_seconds =
     (case matching_clause e of
        Interrupt \<Rightarrow> Reraise
      | Access \<Rightarrow> Reraise
      | Authentication \<Rightarrow> Reraise
      | Transient \<Rightarrow>
          (let sleep_for = min max_backoff_seconds (int_times_1_5 backoff_seconds)
           in Retry sleep_for (min max_backoff_seconds (sleep_for * 2)))
      | Unexpected \<Rightarrow> Retry 15 backoff_seconds)"

definition emit :: "event \<Rightarrow> event list \<times> outcome \<Rightarrow> event list \<times> outcome" where
  "emit ev r = (ev # fst r, snd r)"

datatype pc = At_connect | In_submissions | In_comments

text \<open>
  The generator body from line 96 on. \<open>At_connect\<close> is the head of the outer loop,
  \<open>In_submissions\<close> and \<open>In_comments\<close> are the two \<open>for\<close> loops of a pass. The
  result is the sequence of yields and sleeps, and how the observation ends.
\<close>

fun stream_loop ::
  "pc \<Rightarrow> int \<Rightarrow> submission resp list \<Rightarrow> comment resp list \<Rightarrow> connection list
     \<Rightarrow> event list \<times> outcome" where
  "stream_loop At_connect b s c [] = ([], Waiting)"
| "stream_loop At_connect b s c (Open_fails e # remote) =
     (case except_clauses e b of
        Reraise \<Rightarrow> ([], Raised e)
      | Retry n b' \<Rightarrow> emit (Sleep n) (stream_loop At_connect b' [] [] remote))"
| "stream_loop At_connect b s c (Streams s' c' # remote) =
     stream_loop In_submissions 5 s' c' remote"
| "stream_loop In_submissions b [] c remote = ([], Waiting)"
| "stream_loop In_submissions b (Item x # s) c remote =
     emit (Yield (Submission x)) (stream_loop In_submissions b s c remote)"
| "stream_loop In_submissions b (Pause # s) c remote =
     stream_loop In_comments b s c remote"
| "stream_loop In_submissions b (Raise e # s) c remote =
     (case except_clauses e b of
        Reraise \<Rightarrow> ([], Raised e)
      | Retry n b' \<Rightarrow> emit (Sleep n) (stream_loop At_connect b' [] [] remote))"
| "stream_loop In_comments b s [] remote = ([], Waiting)"
| "stream_loop In_comments b s (Item y # c) remote =
     emit (Yield (Comment y)) (stream_loop In_comments b s c remote)"
| "stream_loop In_comments b s (Pause # c) remote =
     emit Idle_sleep (stream_loop In_submissions b s c remote)"
| "stream_loop In_comments b s (Raise e # c) remote =
     (case except_clauses e b of
        Reraise \<Rightarrow> ([], Raised e)
      | Retry n b' \<Rightarrow> emit (Sleep n) (stream_loop At_connect b' [] [] remote))"

definition stream_reddit_activity :: "connection list \<Rightarrow> event list \<times> outcome" where
  "stream_reddit_activity remote = stream_loop At_connect 5 [] [] remote"

section \<open>gui.py: the background worker\<close>

definition starting_message :: string where
  "starting_message = ''Starting Reddit monitor.\<newline>''"

definition connected_message :: string where
  "connected_message = ''Connection successful.\<newline>''"

definition stopping_message :: string where
  "stopping_message = ''Stopping Reddit monitor.\<newline>''"

definition error_message :: "exn \<Rightarrow> string" where
  "error_message e = ''Error: '' @ msg e @ ''\<newline>''"

text \<open>
  The message of lines 107-120 for one item; \<open>None\<close> is the \<open>continue\<close> of the
  last branch. \<open>item.body[:80]\<close> is \<open>take 80\<close>.
\<close>

fun format_item :: "item \<Rightarrow> string option" where
  "format_item (Submission x) =
     Some (''New Post in r/'' @ sub_subreddit x @ '':\<newline>''
           @ ''  Title: '' @ sub_title x @ ''\<newline>''
           @ ''  URL: https://www.reddit.com'' @ sub_permalink x @ ''\<newline>'')"
| "format_item (Comment y) =
     Some (''New Comment in r/'' @ com_subreddit y @ '':\<newline>''
           @ ''  Comment: '' @ take 80 (com_body y) @ ''...\<newline>''
           @ ''  URL: https://www.reddit.com'' @ com_permalink y @ ''\<newline>'')"
| "format_item Unrecognised = None"

text \<open>
  The \<open>for item in ...\<close> loop of line 103 run over what the generator does. The
  generator is lazy: its sleeps happen while the worker waits for the next item, and
  nothing of it happens after the \<open>break\<close>. \<open>running_at k\<close> is the value of
  \<open>self.running\<close> that the worker reads at its \<open>k\<close>-th check (the other thread
  writes it). The boolean of the result says whether the loop ended by \<open>break\<close>.
\<close>

fun for_items :: "(nat \<Rightarrow> bool) \<Rightarrow> nat \<Rightarrow> event list \<Rightarrow> event list \<times> bool" where
  "for_items running_at k [] = ([], False)"
| "for_items running_at k (Yield it # evs) =
     (if \<not> running_at k then ([Poll_running False], True)
      else (Poll_running True
              # (case format_item it of Some m \<Rightarrow> [Put m] | None \<Rightarrow> [])
              @ fst (for_items running_at (Suc k) evs),
            snd (for_items running_at (Suc k) evs)))"
| "for_items running_at k (ev # evs) =
     (ev # fst (for_items running_at k evs), snd (for_items running_at k evs))"

datatype worker_exit = Stopped | Failed exn | Propagated exn | Still_running

text \<open>
  \<open>except Exception as e\<close> and \<open>finally\<close> of lines 122-125: an exception that is
  not an \<open>Exception\<close> passes the first and still runs the second.
\<close>

definition except_finally :: "event list \<Rightarrow> exn \<Rightarrow> event list \<times> worker_exit" where
  "except_finally tr e =
     (if is_Exception e then (tr @ [Put (error_message e), Put stopping_message], Failed e)
      else (tr @ [Put stopping_message], Propagated e))"

definition reddit_monitor_worker ::
  "(string \<Rightarrow> string option) \<Rightarrow> (credentials \<Rightarrow> exn + 'r) \<Rightarrow> ('r \<Rightarrow> exn + string)
     \<Rightarrow> connection list \<Rightarrow> (nat \<Rightarrow> bool) \<Rightarrow> event list \<times> worker_exit" where
  "reddit_monitor_worker getenv praw_Reddit user_me remote running_at =
     (let init = initialize_reddit getenv praw_Reddit user_me;
          started = Put starting_message # fst init
      in case snd init of
           Inl e \<Rightarrow> except_finally started e
         | Inr reddit \<Rightarrow>
             (let gen = stream_reddit_activity remote;
                  loop = for_items running_at 0 (fst gen);
                  body = started @ Put connected_message # fst loop
              in if snd loop then (body @ [Put stopping_message], Stopped)
                 else (case snd gen of
                         Waiting \<Rightarrow> (body, Still_running)
                       | Raised e \<Rightarrow> except_finally body e)))"

text \<open>What a trace put on \<open>self.message_queue\<close>, in order.\<close>

fun puts :: "event list \<Rightarrow> string list" where
  "puts [] = []"
| "puts (Put m # evs) = m # puts evs"
| "puts (ev # evs) = puts evs"

section \<open>gui.py: start, stop and the queue\<close>

text \<open>
  The fields of \<open>App\<close> that \<open>start_monitoring\<close>, \<open>stop_monitoring\<close>,
  \<open>log\<close> and \<open>check_queue\<close> touch. \<open>log_area\<close> is what the user sees;
  \<open>message_queue\<close> holds what the workers have put and the timer has not yet
  moved to the log. \<open>threads_started\<close> counts the calls of
  \<open>threading.Thread(...).start()\<close>; \<open>monitor_thread\<close> is the number of the
  thread the field holds. A Tk button in state \<open>DISABLED\<close> does not run its
  command when pressed.
\<close>

datatype tk_state = NORMAL | DISABLED

record app =
  running :: bool
  start_button :: tk_state
  stop_button :: tk_state
  log_area :: "string list"
  message_queue :: "string list"
  monitor_thread :: "nat option"
  threads_started :: nat

definition init_app :: app where
  "init_app =
     \<lparr>running = False, start_button = NORMAL, stop_button = DISABLED, log_area = [],
      message_queue = [], monitor_thread = None, threads_started = 0\<rparr>"

definition start_monitoring :: "app \<Rightarrow> app" where
  "start_monitoring a =
     a\<lparr>running := True, start_button := DISABLED, stop_button := NORMAL,
       monitor_thread := Some (threads_started a),
       threads_started := Suc (threads_started a)\<rparr>"

definition stop_monitoring :: "app \<Rightarrow> app" where
  "stop_monitoring a =
     a\<lparr>running := False, start_button := NORMAL, stop_button := DISABLED,
       log_area := log_area a @ [stopping_message]\<rparr>"

text \<open>
  \<open>check_queue\<close> (lines 78-88) takes messages until the queue is empty and logs
  each.
\<close>

definition check_queue :: "app \<Rightarrow> app" where
  "check_queue a = a\<lparr>log_area := log_area a @ message_queue a, message_queue := []\<rparr>"

datatype press = Press_start | Press_stop

fun button :: "press \<Rightarrow> app \<Rightarrow> app" where
  "button Press_start a = (if start_button a = NORMAL then start_monitoring a else a)"
| "button Press_stop a = (if stop_button a = NORMAL then stop_monitoring a else a)"

definition presses :: "press list \<Rightarrow> app" where
  "presses ps = foldl (\<lambda>a p. button p a) init_app ps"

section \<open>gui.py: the window and its workers together\<close>

text \<open>
  A worker thread between two of its steps. \<open>Active evs out\<close> has the events
  \<open>evs\<close> of \<open>reddit_monitor_worker\<close> still ahead of it: its own first puts and
  the call of \<open>initialize_reddit\<close>, then what the generator does, which ends as
  \<open>out\<close> says. \<open>Exited x\<close> has left the function.

  \<open>worker_thread\<close> is the thread that \<open>start_monitoring\<close> starts (target
  \<open>reddit_monitor_worker\<close>, lines 96-103).
\<close>

datatype thread = Active "event list" outcome | Exited worker_exit

definition worker_thread ::
  "(string \<Rightarrow> string option) \<Rightarrow> (credentials \<Rightarrow> exn + 'r) \<Rightarrow> ('r \<Rightarrow> exn + string)
     \<Rightarrow> connection list \<Rightarrow> thread" where
  "worker_thread getenv praw_Reddit user_me remote =
     (let init = initialize_reddit getenv praw_Reddit user_me;
          started = Put starting_message # fst init
      in case snd init of
           Inl e \<Rightarrow> Active started (Raised e)
         | Inr reddit \<Rightarrow>
             Active (started @ Put connected_message # fst (stream_reddit_activity remote))
                    (snd (stream_reddit_activity remote)))"

text \<open>
  One step of a worker, given the value of \<open>self.running\<close> at that moment: the
  messages it puts and the thread afterwards. At an item the worker reads the flag
  (line 104) and either leaves through \<open>finally\<close> or puts the item's message. With
  no event left it is inside a call that has not returned, or the generator has
  raised and lines 122-125 run.
\<close>

fun thread_step :: "bool \<Rightarrow> thread \<Rightarrow> string list \<times> thread" where
  "thread_step r (Exited x) = ([], Exited x)"
| "thread_step r (Active [] Waiting) = ([], Active [] Waiting)"
| "thread_step r (Active [] (Raised e)) =
     (if is_Exception e then ([error_message e, stopping_message], Exited (Failed e))
      else ([stopping_message], Exited (Propagated e)))"
| "thread_step r (Active (Yield it # evs) out) =
     (if \<not> r then ([stopping_message], Exited Stopped)
      else (case format_item it of Some m \<Rightarrow> [m] | None \<Rightarrow> [], Active evs out))"
| "thread_step r (Active (Put m # evs) out) = ([m], Active evs out)"
| "thread_step r (Active (ev # evs) out) = ([], Active evs out)"

text \<open>
  The window with the threads it has started. What happens is a sequence of actions:
  the user presses a button, the timer runs \<open>check_queue\<close>, or worker \<open>i\<close>
  takes its next step. \<open>spawn n\<close> is the thread that the \<open>n\<close>-th start creates.
\<close>

record system =
  gui :: app
  workers :: "thread list"

datatype action = Press press | Timer | Step nat

definition init_system :: system where
  "init_system = \<lparr>gui = init_app, workers = []\<rparr>"

fun act :: "(nat \<Rightarrow> thread) \<Rightarrow> action \<Rightarrow> system \<Rightarrow> system" where
  "act spawn (Press p) \<sigma> =
     \<lparr>gui = button p (gui \<sigma>),
      workers = (if p = Press_start \<and> start_button (gui \<sigma>) = NORMAL
                 then workers \<sigma> @ [spawn (threads_started (gui \<sigma>))]
                 else workers \<sigma>)\<rparr>"
| "act spawn Timer \<sigma> = \<lparr>gui = check_queue (gui \<sigma>), workers = workers \<sigma>\<rparr>"
| "act spawn (Step i) \<sigma> =
     (if i < length (workers \<sigma>)
      then \<lparr>gui = (gui \<sigma>)\<lparr>message_queue :=
                      message_queue (gui \<sigma>)
                        @ fst (thread_step (running (gui \<sigma>)) (workers \<sigma> ! i))\<rparr>,
            workers = (workers \<sigma>)
                        [i := snd (thread_step (running (gui \<sigma>)) (workers \<sigma> ! i))]\<rparr>
      else \<sigma>)"

fun actions :: "(nat \<Rightarrow> thread) \<Rightarrow> system \<Rightarrow> action list \<Rightarrow> system" where
  "actions spawn \<sigma> [] = \<sigma>"
| "actions spawn \<sigma> (a # as) = actions spawn (act spawn a \<sigma>) as"


section \<open>Observations on traces\<close>

text \<open>
  What a trace shows: the seconds slept by the \<open>except\<close> clauses, the items
  yielded, the values of \<open>self.running\<close> read.
\<close>

definition prepend :: "event list \<Rightarrow> event list \<times> outcome \<Rightarrow> event list \<times> outcome" where
  "prepend evs r = (evs @ fst r, snd r)"

fun sleeps :: "event list \<Rightarrow> int list" where
  "sleeps [] = []"
| "sleeps (Sleep n # evs) = n # sleeps evs"
| "sleeps (ev # evs) = sleeps evs"

fun yields :: "event list \<Rightarrow> item list" where
  "yields [] = []"
| "yields (Yield x # evs) = x # yields evs"
| "yields (ev # evs) = yields evs"

fun polls :: "event list \<Rightarrow> bool list" where
  "polls [] = []"
| "polls (Poll_running b # evs) = b # polls evs"
| "polls (ev # evs) = polls evs"

text \<open>
  Scripts of whole passes: pass \<open>p\<close> offers the submissions \<open>fst p\<close> and then
  reports empty, then the comments \<open>snd p\<close> and then reports empty.
  \<open>pass_events p\<close> is what lines 109-120 do on such a pass.
\<close>

definition submissions_script :: "(submission list \<times> comment list) list \<Rightarrow> submission resp list" where
  "submissions_script ps = concat (map (\<lambda>p. map Item (fst p) @ [Pause]) ps)"

definition comments_script :: "(submission list \<times> comment list) list \<Rightarrow> comment resp list" where
  "comments_script ps = concat (map (\<lambda>p. map Item (snd p) @ [Pause]) ps)"

definition pass_events :: "submission list \<times> comment list \<Rightarrow> event list" where
  "pass_events p =
     map (\<lambda>x. Yield (Submission x)) (fst p) @ map (\<lambda>y. Yield (Comment y)) (snd p)
       @ [Idle_sleep]"

text \<open>
  The items the stream objects of a script hold, per source and in order, and the
  items of each source among the yields of a trace.
\<close>

fun items_of :: "'a resp list \<Rightarrow> 'a list" where
  "items_of [] = []"
| "items_of (Item x # rs) = x # items_of rs"
| "items_of (r # rs) = items_of rs"

fun offered_submissions :: "connection list \<Rightarrow> submission list" where
  "offered_submissions [] = []"
| "offered_submissions (Streams s c # remote) = items_of s @ offered_submissions remote"
| "offered_submissions (Open_fails e # remote) = offered_submissions remote"

fun offered_comments :: "connection list \<Rightarrow> comment list" where
  "offered_comments [] = []"
| "offered_comments (Streams s c # remote) = items_of c @ offered_comments remote"
| "offered_comments (Open_fails e # remote) = offered_comments remote"

fun yielded_submissions :: "event list \<Rightarrow> submission list" where
  "yielded_submissions [] = []"
| "yielded_submissions (Yield (Submission x) # evs) = x # yielded_submissions evs"
| "yielded_submissions (ev # evs) = yielded_submissions evs"

fun yielded_comments :: "event list \<Rightarrow> comment list" where
  "yielded_comments [] = []"
| "yielded_comments (Yield (Comment y) # evs) = y # yielded_comments evs"
| "yielded_comments (ev # evs) = yielded_comments evs"

text \<open>
  A script in which every pair of streams opens: no exception at lines 101-102.
\<close>

fun streams_open :: "connection list \<Rightarrow> bool" where
  "streams_open [] = True"
| "streams_open (Streams s c # remote) = streams_open remote"
| "streams_open (Open_fails e # remote) = False"

text \<open>
  Observations on the window and its workers: which threads are alive, how many times
  a press of Stop took effect during a sequence of actions, how many stop messages the
  user has been or will be shown, and what a worker alone does in \<open>n\<close> steps when
  its \<open>k\<close>-th read of the flag gives \<open>f k\<close>.
\<close>

fun alive :: "thread \<Rightarrow> bool" where
  "alive (Active evs out) = True"
| "alive (Exited x) = False"

definition live_workers :: "system \<Rightarrow> nat" where
  "live_workers \<sigma> = length (filter alive (workers \<sigma>))"

definition exited_workers :: "system \<Rightarrow> nat" where
  "exited_workers \<sigma> = length (filter (\<lambda>th. \<not> alive th) (workers \<sigma>))"

fun stops_pressed :: "(nat \<Rightarrow> thread) \<Rightarrow> system \<Rightarrow> action list \<Rightarrow> nat" where
  "stops_pressed spawn \<sigma> [] = 0"
| "stops_pressed spawn \<sigma> (a # as) =
     (if a = Press Press_stop \<and> stop_button (gui \<sigma>) = NORMAL then 1 else 0)
       + stops_pressed spawn (act spawn a \<sigma>) as"

definition stop_messages :: "system \<Rightarrow> nat" where
  "stop_messages \<sigma> =
     count_list (log_area (gui \<sigma>) @ message_queue (gui \<sigma>)) stopping_message"

fun reads :: "thread \<Rightarrow> nat" where
  "reads (Active (Yield it # evs) out) = 1"
| "reads th = 0"

fun thread_run :: "(nat \<Rightarrow> bool) \<Rightarrow> nat \<Rightarrow> nat \<Rightarrow> thread \<Rightarrow> string list \<times> thread" where
  "thread_run f k 0 th = ([], th)"
| "thread_run f k (Suc n) th =
     (fst (thread_step (f k) th)
        @ fst (thread_run f (k + reads th) n (snd (thread_step (f k) th))),
      snd (thread_run f (k + reads th) n (snd (thread_step (f k) th))))"

fun quiet :: "thread \<Rightarrow> bool" where
  "quiet (Active evs out) = (stopping_message \<notin> set (puts evs))"
| "quiet (Exited x) = True"

text \<open>
  How a worker leaves its loop: by the \<open>break\<close>, or as the generator ended.
\<close>

fun thread_end :: "bool \<Rightarrow> outcome \<Rightarrow> string list \<times> thread" where
  "thread_end True out = ([stopping_message], Exited Stopped)"
| "thread_end False Waiting = ([], Active [] Waiting)"
| "thread_end False (Raised e) =
     (if is_Exception e then ([error_message e, stopping_message], Exited (Failed e))
      else ([stopping_message], Exited (Propagated e)))"

text \<open>
  The forms the two scripts of one connection can take, seen from the generator: some
  whole passes, then either the submissions stream gives some items and does not
  answer again, or it gives some items and raises, or it gives some items and reports
  empty and the comments stream gives some items and then does not answer again or
  raises.
\<close>

definition connection_form :: "submission resp list \<Rightarrow> comment resp list \<Rightarrow> bool" where
  "connection_form s c =
     ((\<exists>ps xs c'. s = submissions_script ps @ map Item xs \<and> c = comments_script ps @ c')
      \<or> (\<exists>ps xs e s' c'. s = submissions_script ps @ map Item xs @ Raise e # s'
              \<and> c = comments_script ps @ c')
      \<or> (\<exists>ps xs ys s'. s = submissions_script ps @ map Item xs @ Pause # s'
              \<and> c = comments_script ps @ map Item ys)
      \<or> (\<exists>ps xs ys e s' c'. s = submissions_script ps @ map Item xs @ Pause # s'
              \<and> c = comments_script ps @ map Item ys @ Raise e # c'))"


section \<open>Lemmas\<close>

lemmas handler_defs =
  except_clauses_def matching_clause_def isinstance_def max_backoff_seconds_def
  int_times_1_5_def


lemma drain_submissions:
  "stream_loop In_submissions b (map Item xs @ s) c remote =
     prepend (map (\<lambda>x. Yield (Submission x)) xs) (stream_loop In_submissions b s c remote)"
  by (induction xs) (simp_all add: emit_def prepend_def)

lemma drain_comments:
  "stream_loop In_comments b s (map Item ys @ c) remote =
     prepend (map (\<lambda>y. Yield (Comment y)) ys) (stream_loop In_comments b s c remote)"
  by (induction ys) (simp_all add: emit_def prepend_def)

lemma one_pass:
  "stream_loop In_submissions b (map Item xs @ Pause # s) (map Item ys @ Pause # c) remote =
     prepend (pass_events (xs, ys)) (stream_loop In_submissions b s c remote)"
  by (simp add: drain_submissions drain_comments prepend_def emit_def pass_events_def)

lemma prepend_prepend: "prepend xs (prepend ys r) = prepend (xs @ ys) r"
  by (simp add: prepend_def)

lemma prepend_Nil: "prepend [] r = r"
  by (simp add: prepend_def)

lemma many_passes:
  "stream_loop In_submissions b (submissions_script ps @ s) (comments_script ps @ c) remote =
     prepend (concat (map pass_events ps)) (stream_loop In_submissions b s c remote)"
proof (induction ps)
  case Nil
  show ?case by (simp add: submissions_script_def comments_script_def prepend_Nil)
next
  case (Cons p ps)
  have s: "submissions_script (p # ps) @ s =
      map Item (fst p) @ Pause # (submissions_script ps @ s)"
    by (simp add: submissions_script_def)
  have c: "comments_script (p # ps) @ c =
      map Item (snd p) @ Pause # (comments_script ps @ c)"
    by (simp add: comments_script_def)
  show ?case
    unfolding s c one_pass Cons.IH prepend_prepend by simp
qed

lemma yielded_submissions_subseq:
  "subseq (yielded_submissions (fst (stream_loop k b s c remote)))
          (items_of s @ offered_submissions remote)"
proof (induction k b s c remote rule: stream_loop.induct)
  case (2 b s c e remote)
  show ?case
  proof (cases "except_clauses e b")
    case Reraise
    then show ?thesis by simp
  next
    case (Retry n b')
    from "2" [OF Retry] show ?thesis
      using Retry by (simp add: emit_def list_emb_append2)
  qed
next
  case (3 b s c s' c' remote)
  then show ?case by (simp add: list_emb_append2)
next
  case (7 b e s c remote)
  show ?case
  proof (cases "except_clauses e b")
    case Reraise
    then show ?thesis by simp
  next
    case (Retry n b')
    from "7" [OF Retry] show ?thesis
      using Retry by (simp add: emit_def list_emb_append2)
  qed
next
  case (11 b s e c remote)
  show ?case
  proof (cases "except_clauses e b")
    case Reraise
    then show ?thesis by simp
  next
    case (Retry n b')
    from "11" [OF Retry] show ?thesis
      using Retry by (simp add: emit_def list_emb_append2)
  qed
qed (simp_all add: emit_def)

lemma yielded_comments_subseq:
  "subseq (yielded_comments (fst (stream_loop k b s c remote)))
          (items_of c @ offered_comments remote)"
proof (induction k b s c remote rule: stream_loop.induct)
  case (2 b s c e remote)
  show ?case
  proof (cases "except_clauses e b")
    case Reraise
    then show ?thesis by simp
  next
    case (Retry n b')
    from "2" [OF Retry] show ?thesis
      using Retry by (simp add: emit_def list_emb_append2)
  qed
next
  case (3 b s c s' c' remote)
  then show ?case by (simp add: list_emb_append2)
next
  case (7 b e s c remote)
  show ?case
  proof (cases "except_clauses e b")
    case Reraise
    then show ?thesis by simp
  next
    case (Retry n b')
    from "7" [OF Retry] show ?thesis
      using Retry by (simp add: emit_def list_emb_append2)
  qed
next
  case (11 b s e c remote)
  show ?case
  proof (cases "except_clauses e b")
    case Reraise
    then show ?thesis by simp
  next
    case (Retry n b')
    from "11" [OF Retry] show ?thesis
      using Retry by (simp add: emit_def list_emb_append2)
  qed
qed (simp_all add: emit_def)

lemma generator_puts_nothing: "puts (fst (stream_loop k b s c remote)) = []"
  by (induction k b s c remote rule: stream_loop.induct)
     (simp_all add: emit_def split: handled.splits)

lemma generator_polls_nothing: "polls (fst (stream_loop k b s c remote)) = []"
  by (induction k b s c remote rule: stream_loop.induct)
     (simp_all add: emit_def split: handled.splits)

lemma puts_append: "puts (xs @ ys) = puts xs @ puts ys"
  by (induction xs rule: puts.induct) simp_all

lemma polls_append: "polls (xs @ ys) = polls xs @ polls ys"
  by (induction xs rule: polls.induct) simp_all

lemma polls_False_iff: "Poll_running False \<in> set evs \<longleftrightarrow> False \<in> set (polls evs)"
  by (induction evs rule: polls.induct) auto

lemma format_item_not_stopping: "format_item it = Some m \<Longrightarrow> m \<noteq> stopping_message"
  by (cases it) (auto simp: stopping_message_def)

lemma error_message_not_stopping: "error_message e \<noteq> stopping_message"
  by (simp add: error_message_def stopping_message_def)

lemma for_items_messages:
  "puts evs = [] \<Longrightarrow>
     stopping_message \<notin> set (puts (fst (for_items f k evs)))"
proof (induction f k evs rule: for_items.induct)
  case (2 f k it evs)
  then show ?case
    by (auto simp: puts_append dest: format_item_not_stopping
             split: option.splits)
qed simp_all

lemma broke_cons:
  assumes "\<exists>pre. xs = pre @ [Poll_running False] \<and> False \<notin> set (polls pre)"
    and "False \<notin> set (polls hd_evs)"
  shows "\<exists>pre. hd_evs @ xs = pre @ [Poll_running False] \<and> False \<notin> set (polls pre)"
proof -
  from assms(1) obtain pre where pre: "xs = pre @ [Poll_running False]"
    "False \<notin> set (polls pre)" by blast
  have "hd_evs @ xs = (hd_evs @ pre) @ [Poll_running False]" using pre by simp
  moreover have "False \<notin> set (polls (hd_evs @ pre))"
    using pre assms(2) by (simp add: polls_append)
  ultimately show ?thesis by blast
qed

lemma for_items_break:
  "polls evs = [] \<Longrightarrow> snd (for_items f k evs) \<Longrightarrow>
     \<exists>pre. fst (for_items f k evs) = pre @ [Poll_running False] \<and> False \<notin> set (polls pre)"
proof (induction evs arbitrary: k)
  case Nil
  then show ?case by simp
next
  case (Cons ev evs)
  show ?case
  proof (cases "\<exists>it. ev = Yield it")
    case True
    then obtain it where ev: "ev = Yield it" by blast
    show ?thesis
    proof (cases "f k")
      case False
      have "fst (for_items f k (ev # evs)) = [] @ [Poll_running False]"
        using False ev by simp
      moreover have "False \<notin> set (polls [])" by simp
      ultimately show ?thesis by blast
    next
      case True
      with Cons.prems ev have p: "polls evs = []" and s: "snd (for_items f (Suc k) evs)"
        by simp_all
      let ?h = "Poll_running True # (case format_item it of Some m \<Rightarrow> [Put m] | None \<Rightarrow> [])"
      have h: "False \<notin> set (polls ?h)" by (simp split: option.splits)
      have "fst (for_items f k (ev # evs)) = ?h @ fst (for_items f (Suc k) evs)"
        using True ev by simp
      then show ?thesis using broke_cons [OF Cons.IH [OF p s] h] by simp
    qed
  next
    case False
    then have step: "for_items f k (ev # evs)
        = (ev # fst (for_items f k evs), snd (for_items f k evs))"
      by (cases ev) simp_all
    from Cons.prems(1) have p: "polls evs = []" and h: "False \<notin> set (polls [ev])"
      by (cases ev; simp)+
    from Cons.prems(2) step have s: "snd (for_items f k evs)" by simp
    show ?thesis using broke_cons [OF Cons.IH [OF p s] h] step by simp
  qed
qed

lemma for_items_no_break:
  "polls evs = [] \<Longrightarrow> \<not> snd (for_items f k evs) \<Longrightarrow>
     False \<notin> set (polls (fst (for_items f k evs)))"
proof (induction f k evs rule: for_items.induct)
  case (2 f k it evs)
  then show ?case by (auto simp: polls_append split: option.splits if_splits)
qed simp_all

lemma for_items_polls:
  "polls evs = [] \<Longrightarrow> length (polls (fst (for_items f k evs))) \<le> length (yields evs)"
proof (induction f k evs rule: for_items.induct)
  case (2 f k it evs)
  then show ?case by (auto simp: polls_append split: option.splits)
qed simp_all

lemma for_items_polls_all:
  "polls evs = [] \<Longrightarrow> \<forall>j. f j \<Longrightarrow>
     length (polls (fst (for_items f k evs))) = length (yields evs)"
proof (induction f k evs rule: for_items.induct)
  case (2 f k it evs)
  then show ?case by (auto simp: polls_append split: option.splits)
qed simp_all

lemma initialize_reddit_events:
  "snd (initialize_reddit g R m) = Inr r \<Longrightarrow> fst (initialize_reddit g R m) = [Call_user_me]"
  by (auto simp: initialize_reddit_def split: sum.splits if_splits)

lemma initialize_reddit_quiet:
  "puts (fst (initialize_reddit g R m)) = [] \<and> polls (fst (initialize_reddit g R m)) = []"
  by (auto simp: initialize_reddit_def split: sum.splits if_splits)

lemma worker_init_failed:
  "snd (initialize_reddit g R m) = Inl e \<Longrightarrow>
     reddit_monitor_worker g R m remote f =
       except_finally (Put starting_message # fst (initialize_reddit g R m)) e"
  by (simp add: reddit_monitor_worker_def Let_def)

lemma worker_init_ok:
  "snd (initialize_reddit g R m) = Inr r \<Longrightarrow>
     reddit_monitor_worker g R m remote f =
       (if snd (for_items f 0 (fst (stream_reddit_activity remote)))
        then ((Put starting_message # Call_user_me # Put connected_message
                # fst (for_items f 0 (fst (stream_reddit_activity remote))))
              @ [Put stopping_message], Stopped)
        else (case snd (stream_reddit_activity remote) of
                Waiting \<Rightarrow>
                  (Put starting_message # Call_user_me # Put connected_message
                     # fst (for_items f 0 (fst (stream_reddit_activity remote))),
                   Still_running)
              | Raised e \<Rightarrow>
                  except_finally
                    (Put starting_message # Call_user_me # Put connected_message
                       # fst (for_items f 0 (fst (stream_reddit_activity remote)))) e))"
  by (simp add: reddit_monitor_worker_def Let_def initialize_reddit_events)

lemma starting_not_stopping: "starting_message \<noteq> stopping_message"
  by (simp add: starting_message_def stopping_message_def)

lemma connected_not_stopping: "connected_message \<noteq> stopping_message"
  by (simp add: connected_message_def stopping_message_def)

lemma except_finally_messages:
  assumes "stopping_message \<notin> set (puts tr)"
  shows "\<exists>pre. puts (fst (except_finally tr e)) = pre @ [stopping_message]
           \<and> stopping_message \<notin> set pre
           \<and> (\<forall>e'. snd (except_finally tr e) = Failed e'
                  \<longrightarrow> (\<exists>pre'. pre = pre' @ [error_message e']))"
proof (cases "is_Exception e")
  case True
  have "puts (fst (except_finally tr e)) =
      (puts tr @ [error_message e]) @ [stopping_message]"
    using True by (simp add: except_finally_def puts_append)
  moreover have "stopping_message \<notin> set (puts tr @ [error_message e])"
    using assms error_message_not_stopping [of e] by auto
  moreover have "\<forall>e'. snd (except_finally tr e) = Failed e'
      \<longrightarrow> (\<exists>pre'. puts tr @ [error_message e] = pre' @ [error_message e'])"
    using True by (simp add: except_finally_def)
  ultimately show ?thesis by blast
next
  case False
  have "puts (fst (except_finally tr e)) = puts tr @ [stopping_message]"
    using False by (simp add: except_finally_def puts_append)
  moreover have "\<forall>e'. snd (except_finally tr e) \<noteq> Failed e'"
    using False by (simp add: except_finally_def)
  ultimately show ?thesis using assms by blast
qed

lemma worker_exit_messages:
  assumes "snd (reddit_monitor_worker g R m remote f) \<noteq> Still_running"
  shows "\<exists>pre. puts (fst (reddit_monitor_worker g R m remote f)) = pre @ [stopping_message]
           \<and> stopping_message \<notin> set pre
           \<and> (\<forall>e. snd (reddit_monitor_worker g R m remote f) = Failed e
                  \<longrightarrow> (\<exists>pre'. pre = pre' @ [error_message e]))"
proof (cases "snd (initialize_reddit g R m)")
  case (Inl e)
  have "stopping_message \<notin> set (puts (Put starting_message # fst (initialize_reddit g R m)))"
    using starting_not_stopping by (simp add: initialize_reddit_quiet)
  from except_finally_messages [OF this, of e] show ?thesis
    by (simp only: worker_init_failed [OF Inl])
next
  case (Inr r)
  let ?gen = "stream_reddit_activity remote"
  let ?loop = "for_items f 0 (fst ?gen)"
  let ?body = "Put starting_message # Call_user_me # Put connected_message # fst ?loop"
  have quiet: "puts (fst ?gen) = []"
    by (simp add: stream_reddit_activity_def generator_puts_nothing)
  have body: "stopping_message \<notin> set (puts ?body)"
    using starting_not_stopping connected_not_stopping for_items_messages [OF quiet, of f 0]
    by simp
  show ?thesis
  proof (cases "snd ?loop")
    case True
    have "puts (fst (reddit_monitor_worker g R m remote f)) =
        puts ?body @ [stopping_message]"
      using True by (simp add: worker_init_ok [OF Inr] puts_append)
    moreover have "\<forall>e. snd (reddit_monitor_worker g R m remote f) \<noteq> Failed e"
      using True by (simp add: worker_init_ok [OF Inr])
    ultimately show ?thesis using body by blast
  next
    case False
    show ?thesis
    proof (cases "snd ?gen")
      case Waiting
      then have "snd (reddit_monitor_worker g R m remote f) = Still_running"
        using False by (simp add: worker_init_ok [OF Inr])
      with assms show ?thesis by simp
    next
      case (Raised e)
      have w: "reddit_monitor_worker g R m remote f = except_finally ?body e"
        using False Raised by (simp add: worker_init_ok [OF Inr])
      from except_finally_messages [OF body, of e] show ?thesis
        by (simp only: w)
    qed
  qed
qed

lemma access_is_Exception: "matching_clause e = Access \<Longrightarrow> is_Exception e"
  by (auto simp: matching_clause_def isinstance_def is_Exception_def split: if_splits)

lemma access_reraised: "matching_clause e = Access \<Longrightarrow> except_clauses e b = Reraise"
  by (simp add: except_clauses_def)

lemma except_finally_polls: "polls (fst (except_finally tr e)) = polls tr"
  by (simp add: except_finally_def polls_append)

lemma worker_polls:
  "polls (fst (reddit_monitor_worker g R m remote f)) =
     (case snd (initialize_reddit g R m) of
        Inl e \<Rightarrow> []
      | Inr r \<Rightarrow> polls (fst (for_items f 0 (fst (stream_reddit_activity remote)))))"
proof (cases "snd (initialize_reddit g R m)")
  case (Inl e)
  then show ?thesis
    by (simp add: worker_init_failed [OF Inl] except_finally_polls initialize_reddit_quiet)
next
  case (Inr r)
  then show ?thesis
    by (simp add: worker_init_ok [OF Inr] except_finally_polls polls_append
          split: outcome.splits)
qed

lemma worker_observes_stop:
  assumes "Poll_running False \<in> set (fst (reddit_monitor_worker g R m remote f))"
  shows "(\<exists>pre. fst (reddit_monitor_worker g R m remote f)
                  = pre @ [Poll_running False, Put stopping_message]
               \<and> Poll_running False \<notin> set pre)
         \<and> snd (reddit_monitor_worker g R m remote f) = Stopped"
proof -
  let ?gen = "stream_reddit_activity remote"
  let ?loop = "for_items f 0 (fst ?gen)"
  have quiet: "polls (fst ?gen) = []"
    by (simp add: stream_reddit_activity_def generator_polls_nothing)
  from assms have seen: "False \<in> set (polls (fst (reddit_monitor_worker g R m remote f)))"
    by (simp add: polls_False_iff)
  then obtain r where Inr: "snd (initialize_reddit g R m) = Inr r"
    and loop: "False \<in> set (polls (fst ?loop))"
    by (cases "snd (initialize_reddit g R m)") (simp_all add: worker_polls)
  have broke: "snd ?loop"
    using for_items_no_break [OF quiet, of f 0] loop by blast
  from for_items_break [OF quiet broke] obtain pre where
    pre: "fst ?loop = pre @ [Poll_running False]" "False \<notin> set (polls pre)" by blast
  let ?pre = "Put starting_message # Call_user_me # Put connected_message # pre"
  have "fst (reddit_monitor_worker g R m remote f) =
      ?pre @ [Poll_running False, Put stopping_message]"
    using broke pre by (simp add: worker_init_ok [OF Inr])
  moreover have "Poll_running False \<notin> set ?pre"
    using pre by (simp add: polls_False_iff)
  moreover have "snd (reddit_monitor_worker g R m remote f) = Stopped"
    using broke by (simp add: worker_init_ok [OF Inr])
  ultimately show ?thesis by blast
qed

lemma worker_polls_le:
  "length (polls (fst (reddit_monitor_worker g R m remote f)))
     \<le> length (yields (fst (stream_reddit_activity remote)))"
proof -
  have quiet: "polls (fst (stream_reddit_activity remote)) = []"
    by (simp add: stream_reddit_activity_def generator_polls_nothing)
  show ?thesis
    using for_items_polls [OF quiet, of f 0]
    by (simp add: worker_polls split: sum.splits)
qed

lemma worker_polls_eq:
  assumes "\<forall>k. f k" and "snd (initialize_reddit g R m) = Inr r"
  shows "length (polls (fst (reddit_monitor_worker g R m remote f)))
     = length (yields (fst (stream_reddit_activity remote)))"
proof -
  have quiet: "polls (fst (stream_reddit_activity remote)) = []"
    by (simp add: stream_reddit_activity_def generator_polls_nothing)
  show ?thesis
    using for_items_polls_all [OF quiet assms(1), of 0]
    by (simp add: worker_polls assms(2))
qed

lemma presses_snoc: "presses (ps @ [p]) = button p (presses ps)"
  by (simp add: presses_def)

lemma buttons_invariant:
  "(start_button (presses ps) = DISABLED \<longleftrightarrow> running (presses ps))
   \<and> (stop_button (presses ps) = DISABLED \<longleftrightarrow> \<not> running (presses ps))
   \<and> threads_started (presses ps)
       = length (log_area (presses ps)) + (if running (presses ps) then 1 else 0)"
proof (induction ps rule: rev_induct)
  case Nil
  show ?case by (simp add: presses_def init_app_def)
next
  case (snoc p ps)
  then show ?case
    by (cases p; cases "start_button (presses ps)"; cases "stop_button (presses ps)")
       (auto simp: presses_snoc start_monitoring_def stop_monitoring_def)
qed

lemma clauses_by_class:
  "(cls e = KeyboardInterrupt \<longrightarrow>
      matching_clause e = Interrupt \<and> except_clauses e b = Reraise)
   \<and> (cls e \<in> {Forbidden, NotFound} \<longrightarrow>
      matching_clause e = Access \<and> except_clauses e b = Reraise)
   \<and> (cls e \<in> {OAuthException, InvalidToken} \<longrightarrow>
      matching_clause e = Authentication \<and> except_clauses e b = Reraise)
   \<and> (cls e \<in> {RequestException, ResponseException, ServerError, BadRequest} \<longrightarrow>
      matching_clause e = Transient
      \<and> except_clauses e b =
          Retry (min 120 (int_times_1_5 b)) (min 120 (2 * min 120 (int_times_1_5 b))))
   \<and> (cls e \<in> {ValueError, RuntimeError, Other_Exception} \<longrightarrow>
      matching_clause e = Unexpected \<and> except_clauses e b = Retry 15 b)
   \<and> (except_clauses e b = Reraise \<longrightarrow>
      stream_loop In_submissions b (Raise e # s) c remote = ([], Raised e)
      \<and> stream_loop In_comments b s (Raise e # c) remote = ([], Raised e))
   \<and> (except_clauses e b = Retry n b' \<longrightarrow>
      stream_loop In_submissions b (Raise e # s) c remote
        = emit (Sleep n) (stream_loop At_connect b' [] [] remote)
      \<and> stream_loop In_comments b s (Raise e # c) remote
        = emit (Sleep n) (stream_loop At_connect b' [] [] remote))"
  by (cases e; cases "cls e")
     (auto simp: except_clauses_def matching_clause_def isinstance_def
        max_backoff_seconds_def Let_def mult.commute)

subsection \<open>Sleeps and the forms of a connection\<close>

lemma transient_at_5: "min max_backoff_seconds (int_times_1_5 5) = 7"
  by (simp add: max_backoff_seconds_def int_times_1_5_def)

lemma streaming_handler_sleep:
  "except_clauses e 5 = Retry n b' \<Longrightarrow> n = 7 \<or> n = 15"
  by (cases "matching_clause e")
     (simp_all add: except_clauses_def Let_def transient_at_5)

lemma streaming_sleeps:
  "streams_open remote \<Longrightarrow> k = At_connect \<or> b = 5 \<Longrightarrow>
     set (sleeps (fst (stream_loop k b s c remote))) \<subseteq> {7, 15}"
proof (induction k b s c remote rule: stream_loop.induct)
  case (7 b e s c remote)
  then have b: "b = 5" by simp
  show ?case
  proof (cases "except_clauses e b")
    case Reraise
    then show ?thesis by simp
  next
    case (Retry n b')
    from "7.IH" [OF Retry] "7.prems" have "set (sleeps (fst (stream_loop At_connect b' [] [] remote))) \<subseteq> {7, 15}"
      by simp
    then show ?thesis
      using Retry streaming_handler_sleep [of e n b'] b by (auto simp: emit_def)
  qed
next
  case (11 b s e c remote)
  then have b: "b = 5" by simp
  show ?case
  proof (cases "except_clauses e b")
    case Reraise
    then show ?thesis by simp
  next
    case (Retry n b')
    from "11.IH" [OF Retry] "11.prems" have "set (sleeps (fst (stream_loop At_connect b' [] [] remote))) \<subseteq> {7, 15}"
      by simp
    then show ?thesis
      using Retry streaming_handler_sleep [of e n b'] b by (auto simp: emit_def)
  qed
qed (simp_all add: emit_def)



lemma split_items:
  "(\<exists>xs. s = map Item xs) \<or> (\<exists>xs s'. s = map Item xs @ Pause # s')
     \<or> (\<exists>xs e s'. s = map Item xs @ Raise e # s')"
proof (induction s)
  case Nil
  have "[] = map Item []" by simp
  then show ?case by (intro disjI1 exI)
next
  case (Cons r s)
  show ?case
  proof (cases r)
    case (Item x)
    from Cons show ?thesis
    proof (elim disjE exE)
      fix xs assume "s = map Item xs"
      then have "r # s = map Item (x # xs)" using Item by simp
      then show ?thesis by (intro disjI1 exI)
    next
      fix xs s' assume "s = map Item xs @ Pause # s'"
      then have "r # s = map Item (x # xs) @ Pause # s'" using Item by simp
      then show ?thesis by (intro disjI2 disjI1 exI)
    next
      fix xs e s' assume "s = map Item xs @ Raise e # s'"
      then have "r # s = map Item (x # xs) @ Raise e # s'" using Item by simp
      then show ?thesis by (intro disjI2 exI)
    qed
  next
    case Pause
    then have "r # s = map Item [] @ Pause # s" by simp
    then show ?thesis by (intro disjI2 disjI1 exI)
  next
    case (Raise e)
    then have "r # s = map Item [] @ Raise e # s" by simp
    then show ?thesis by (intro disjI2 exI)
  qed
qed

lemma drain_submissions_end:
  "stream_loop In_submissions b (map Item xs) c remote =
     (map (\<lambda>x. Yield (Submission x)) xs, Waiting)"
  using drain_submissions [of b xs "[]" c remote] by (simp add: prepend_def)

lemma drain_comments_end:
  "stream_loop In_comments b s (map Item ys) remote =
     (map (\<lambda>y. Yield (Comment y)) ys, Waiting)"
  using drain_comments [of b s ys "[]" remote] by (simp add: prepend_def)

lemma submissions_script_Cons:
  "submissions_script ((xs, ys) # ps) = map Item xs @ Pause # submissions_script ps"
  by (simp add: submissions_script_def)

lemma comments_script_Cons:
  "comments_script ((xs, ys) # ps) = map Item ys @ Pause # comments_script ps"
  by (simp add: comments_script_def)

lemma scripts_Nil: "submissions_script [] = []" "comments_script [] = []"
  by (simp_all add: submissions_script_def comments_script_def)

lemma form_submissions_wait: "connection_form (map Item xs) c"
proof -
  have "map Item xs = submissions_script [] @ map Item xs" "c = comments_script [] @ c"
    by (simp_all add: scripts_Nil)
  then have "\<exists>ps xs' c'. map Item xs = submissions_script ps @ map Item xs'
      \<and> c = comments_script ps @ c'"
    by (intro exI conjI)
  then show ?thesis unfolding connection_form_def by (rule disjI1)
qed

lemma form_submissions_raise: "connection_form (map Item xs @ Raise e # s') c"
proof -
  have "map Item xs @ Raise e # s' = submissions_script [] @ map Item xs @ Raise e # s'"
    "c = comments_script [] @ c"
    by (simp_all add: scripts_Nil)
  then have "\<exists>ps xs' e' s'' c'. map Item xs @ Raise e # s'
        = submissions_script ps @ map Item xs' @ Raise e' # s''
      \<and> c = comments_script ps @ c'"
    by (intro exI conjI)
  then show ?thesis unfolding connection_form_def by (intro disjI2 disjI1)
qed

lemma form_comments_wait: "connection_form (map Item xs @ Pause # s') (map Item ys)"
proof -
  have "map Item xs @ Pause # s' = submissions_script [] @ map Item xs @ Pause # s'"
    "map Item ys = comments_script [] @ map Item ys"
    by (simp_all add: scripts_Nil)
  then have "\<exists>ps xs' ys' s''. map Item xs @ Pause # s'
        = submissions_script ps @ map Item xs' @ Pause # s''
      \<and> map Item ys = comments_script ps @ map Item ys'"
    by (intro exI conjI)
  then show ?thesis unfolding connection_form_def by (intro disjI2 disjI1)
qed

lemma form_comments_raise:
  "connection_form (map Item xs @ Pause # s') (map Item ys @ Raise e # c')"
proof -
  have "map Item xs @ Pause # s' = submissions_script [] @ map Item xs @ Pause # s'"
    "map Item ys @ Raise e # c' = comments_script [] @ map Item ys @ Raise e # c'"
    by (simp_all add: scripts_Nil)
  then have "\<exists>ps xs' ys' e' s'' c''. map Item xs @ Pause # s'
        = submissions_script ps @ map Item xs' @ Pause # s''
      \<and> map Item ys @ Raise e # c' = comments_script ps @ map Item ys' @ Raise e' # c''"
    by (intro exI conjI)
  then show ?thesis unfolding connection_form_def by (intro disjI2)
qed

lemma form_pass:
  assumes "connection_form s c"
  shows "connection_form (map Item xs @ Pause # s) (map Item ys @ Pause # c)"
proof -
  let ?s = "map Item xs @ Pause # s" and ?c = "map Item ys @ Pause # c"
  from assms [unfolded connection_form_def] show ?thesis
  proof (elim disjE exE conjE)
    fix ps xs' c'
    assume "s = submissions_script ps @ map Item xs'" "c = comments_script ps @ c'"
    then have "?s = submissions_script ((xs, ys) # ps) @ map Item xs'"
      "?c = comments_script ((xs, ys) # ps) @ c'"
      by (simp_all add: submissions_script_Cons comments_script_Cons)
    then have "\<exists>ps xs' c'. ?s = submissions_script ps @ map Item xs'
        \<and> ?c = comments_script ps @ c'"
      by (intro exI conjI)
    then show ?thesis unfolding connection_form_def by (rule disjI1)
  next
    fix ps xs' e s' c'
    assume "s = submissions_script ps @ map Item xs' @ Raise e # s'"
      "c = comments_script ps @ c'"
    then have "?s = submissions_script ((xs, ys) # ps) @ map Item xs' @ Raise e # s'"
      "?c = comments_script ((xs, ys) # ps) @ c'"
      by (simp_all add: submissions_script_Cons comments_script_Cons)
    then have "\<exists>ps xs' e s' c'. ?s = submissions_script ps @ map Item xs' @ Raise e # s'
        \<and> ?c = comments_script ps @ c'"
      by (intro exI conjI)
    then show ?thesis unfolding connection_form_def by (intro disjI2 disjI1)
  next
    fix ps xs' ys' s'
    assume "s = submissions_script ps @ map Item xs' @ Pause # s'"
      "c = comments_script ps @ map Item ys'"
    then have "?s = submissions_script ((xs, ys) # ps) @ map Item xs' @ Pause # s'"
      "?c = comments_script ((xs, ys) # ps) @ map Item ys'"
      by (simp_all add: submissions_script_Cons comments_script_Cons)
    then have "\<exists>ps xs' ys' s'. ?s = submissions_script ps @ map Item xs' @ Pause # s'
        \<and> ?c = comments_script ps @ map Item ys'"
      by (intro exI conjI)
    then show ?thesis unfolding connection_form_def by (intro disjI2 disjI1)
  next
    fix ps xs' ys' e s' c'
    assume "s = submissions_script ps @ map Item xs' @ Pause # s'"
      "c = comments_script ps @ map Item ys' @ Raise e # c'"
    then have "?s = submissions_script ((xs, ys) # ps) @ map Item xs' @ Pause # s'"
      "?c = comments_script ((xs, ys) # ps) @ map Item ys' @ Raise e # c'"
      by (simp_all add: submissions_script_Cons comments_script_Cons)
    then have "\<exists>ps xs' ys' e s' c'. ?s = submissions_script ps @ map Item xs' @ Pause # s'
        \<and> ?c = comments_script ps @ map Item ys' @ Raise e # c'"
      by (intro exI conjI)
    then show ?thesis unfolding connection_form_def by (intro disjI2)
  qed
qed

lemma every_connection_form: "connection_form s c"
proof (induction "length s" arbitrary: s c rule: less_induct)
  case (less s c)
  from split_items [of s] show ?case
  proof (elim disjE exE)
    fix xs assume "s = map Item xs"
    then show ?thesis by (simp add: form_submissions_wait)
  next
    fix xs e s' assume "s = map Item xs @ Raise e # s'"
    then show ?thesis by (simp add: form_submissions_raise)
  next
    fix xs s' assume s: "s = map Item xs @ Pause # s'"
    from split_items [of c] show ?thesis
    proof (elim disjE exE)
      fix ys assume "c = map Item ys"
      then show ?thesis using s by (simp add: form_comments_wait)
    next
      fix ys e c' assume "c = map Item ys @ Raise e # c'"
      then show ?thesis using s by (simp add: form_comments_raise)
    next
      fix ys c' assume c: "c = map Item ys @ Pause # c'"
      have "length s' < length s" using s by simp
      then have "connection_form s' c'" by (rule less.hyps)
      then show ?thesis unfolding s c by (rule form_pass)
    qed
  qed
qed

subsection \<open>The window and its workers\<close>

lemma count_list_append: "count_list (xs @ ys) a = count_list xs a + count_list ys a"
  by (induction xs) simp_all

lemma thread_step_count:
  assumes "quiet th"
  shows "count_list (fst (thread_step r th)) stopping_message + (if alive th then 0 else 1)
           = (if alive (snd (thread_step r th)) then 0 else 1)
         \<and> quiet (snd (thread_step r th))"
proof (cases th)
  case (Exited x)
  then show ?thesis by simp
next
  case (Active evs out)
  show ?thesis
  proof (cases evs)
    case Nil
    then show ?thesis
      using Active error_message_not_stopping by (cases out) auto
  next
    case (Cons ev evs')
    show ?thesis
    proof (cases ev)
      case (Yield it)
      then show ?thesis
        using Active Cons assms format_item_not_stopping [of it]
        by (cases "format_item it") auto
    next
      case (Put m)
      then show ?thesis using Active Cons assms by auto
    qed (use Active Cons assms in auto)
  qed
qed

lemma exited_update:
  "i < length ws \<Longrightarrow>
     length (filter (\<lambda>th. \<not> alive th) (ws[i := th'])) + (if alive (ws ! i) then 0 else 1)
       = length (filter (\<lambda>th. \<not> alive th) ws) + (if alive th' then 0 else 1)"
proof (induction ws arbitrary: i)
  case Nil
  then show ?case by simp
next
  case (Cons w ws)
  show ?case
  proof (cases i)
    case 0
    then show ?thesis by simp
  next
    case (Suc j)
    with Cons.prems have "j < length ws" by simp
    from Cons.IH [OF this] show ?thesis using Suc by (auto split: if_splits)
  qed
qed

lemma quiet_update:
  "list_all quiet ws \<Longrightarrow> quiet th' \<Longrightarrow> list_all quiet (ws[i := th'])"
  by (induction ws arbitrary: i) (auto split: nat.splits)

lemma quiet_nth: "list_all quiet ws \<Longrightarrow> i < length ws \<Longrightarrow> quiet (ws ! i)"
  by (simp add: list_all_length)

lemma act_count:
  assumes "\<forall>n. quiet (spawn n) \<and> alive (spawn n)" and "list_all quiet (workers \<sigma>)"
  shows "stop_messages (act spawn a \<sigma>) + exited_workers \<sigma>
           = stop_messages \<sigma>
             + (if a = Press Press_stop \<and> stop_button (gui \<sigma>) = NORMAL then 1 else 0)
             + exited_workers (act spawn a \<sigma>)
         \<and> list_all quiet (workers (act spawn a \<sigma>))"
proof (cases a)
  case (Press p)
  show ?thesis
  proof (cases p)
    case Press_start
    then show ?thesis
      using Press assms
      by (simp add: stop_messages_def exited_workers_def start_monitoring_def)
  next
    case Press_stop
    then show ?thesis
      using Press assms
      by (simp add: stop_messages_def exited_workers_def stop_monitoring_def
            count_list_append)
  qed
next
  case Timer
  then show ?thesis
    using assms by (simp add: stop_messages_def exited_workers_def check_queue_def
          count_list_append)
next
  case (Step i)
  show ?thesis
  proof (cases "i < length (workers \<sigma>)")
    case False
    then show ?thesis using Step assms by simp
  next
    case True
    let ?th = "workers \<sigma> ! i"
    let ?r = "thread_step (running (gui \<sigma>)) ?th"
    have q: "quiet ?th" using assms(2) True by (rule quiet_nth)
    from thread_step_count [OF q, of "running (gui \<sigma>)"]
    have c: "count_list (fst ?r) stopping_message + (if alive ?th then 0 else 1)
           = (if alive (snd ?r) then 0 else 1)" and q': "quiet (snd ?r)" by simp_all
    from exited_update [OF True, of "snd ?r"]
    have e: "length (filter (\<lambda>th. \<not> alive th) ((workers \<sigma>)[i := snd ?r]))
          + (if alive ?th then 0 else 1)
        = length (filter (\<lambda>th. \<not> alive th) (workers \<sigma>)) + (if alive (snd ?r) then 0 else 1)" .
    have "stop_messages (act spawn a \<sigma>)
        = stop_messages \<sigma> + count_list (fst ?r) stopping_message"
      using Step True by (simp add: stop_messages_def count_list_append)
    moreover have "exited_workers (act spawn a \<sigma>)
        = length (filter (\<lambda>th. \<not> alive th) ((workers \<sigma>)[i := snd ?r]))"
      using Step True by (simp add: exited_workers_def)
    moreover have "list_all quiet (workers (act spawn a \<sigma>))"
      using Step True quiet_update [OF assms(2) q'] by simp
    ultimately show ?thesis
      using c e Step by (simp add: exited_workers_def split: if_splits)
  qed
qed

lemma actions_count:
  assumes "\<forall>n. quiet (spawn n) \<and> alive (spawn n)"
  shows "list_all quiet (workers \<sigma>) \<Longrightarrow>
     stop_messages (actions spawn \<sigma> acts) + exited_workers \<sigma>
       = stop_messages \<sigma> + stops_pressed spawn \<sigma> acts
         + exited_workers (actions spawn \<sigma> acts)"
proof (induction acts arbitrary: \<sigma>)
  case Nil
  then show ?case by simp
next
  case (Cons a acts)
  from act_count [OF assms Cons.prems, of a]
  have step: "stop_messages (act spawn a \<sigma>) + exited_workers \<sigma>
           = stop_messages \<sigma>
             + (if a = Press Press_stop \<and> stop_button (gui \<sigma>) = NORMAL then 1 else 0)
             + exited_workers (act spawn a \<sigma>)"
    and q: "list_all quiet (workers (act spawn a \<sigma>))" by simp_all
  from Cons.IH [OF q] step show ?case by simp
qed

lemma worker_thread_quiet:
  "quiet (worker_thread g R m remote) \<and> alive (worker_thread g R m remote)"
proof (cases "snd (initialize_reddit g R m)")
  case (Inl e)
  then show ?thesis
    using starting_not_stopping
    by (simp add: worker_thread_def Let_def initialize_reddit_quiet)
next
  case (Inr r)
  then show ?thesis
    using starting_not_stopping connected_not_stopping
    by (simp add: worker_thread_def Let_def initialize_reddit_quiet puts_append
          stream_reddit_activity_def generator_puts_nothing)
qed

lemma thread_run_Exited: "thread_run f k n (Exited x) = ([], Exited x)"
  by (induction n arbitrary: k) simp_all

lemma thread_run_blocked: "thread_run f k n (Active [] Waiting) = ([], Active [] Waiting)"
  by (induction n arbitrary: k) simp_all

lemma thread_run_for_items:
  "length evs < n \<Longrightarrow>
     thread_run f k n (Active evs out) =
       (puts (fst (for_items f k evs)) @ fst (thread_end (snd (for_items f k evs)) out),
        snd (thread_end (snd (for_items f k evs)) out))"
proof (induction evs arbitrary: k n)
  case Nil
  then obtain n' where n: "n = Suc n'" by (cases n) simp_all
  show ?case
    by (cases out) (simp_all add: n thread_run_Exited thread_run_blocked)
next
  case (Cons ev evs)
  then obtain n' where n: "n = Suc n'" and less: "length evs < n'" by (cases n) simp_all
  note ih = Cons.IH [OF less]
  show ?case
  proof (cases ev)
    case (Yield it)
    show ?thesis
    proof (cases "f k")
      case True
      then show ?thesis
        using Yield ih [of "Suc k"]
        by (cases "format_item it") (simp_all add: n puts_append)
    next
      case False
      then show ?thesis using Yield by (simp add: n thread_run_Exited)
    qed
  qed (simp_all add: n ih)
qed

lemma for_items_no_yield:
  "yields pre = [] \<Longrightarrow>
     for_items f k (pre @ evs) = (pre @ fst (for_items f k evs), snd (for_items f k evs))"
  by (induction pre rule: yields.induct) simp_all

lemma initialize_reddit_no_yield: "yields (fst (initialize_reddit g R m)) = []"
  by (auto simp: initialize_reddit_def split: sum.splits if_splits)

lemma worker_thread_agrees:
  assumes "length (fst (initialize_reddit g R m))
             + length (fst (stream_reddit_activity remote)) + 2 < n"
  shows "thread_run f 0 n (worker_thread g R m remote) =
     (puts (fst (reddit_monitor_worker g R m remote f)),
      if snd (reddit_monitor_worker g R m remote f) = Still_running then Active [] Waiting
      else Exited (snd (reddit_monitor_worker g R m remote f)))"
proof (cases "snd (initialize_reddit g R m)")
  case (Inl e)
  let ?started = "Put starting_message # fst (initialize_reddit g R m)"
  have ny: "yields ?started = []" by (simp add: initialize_reddit_no_yield)
  have fi: "for_items f 0 ?started = (?started, False)"
    using for_items_no_yield [OF ny, of f 0 "[]"] by simp
  have len: "length ?started < n" using assms by simp
  have run: "thread_run f 0 n (Active ?started (Raised e)) =
      (puts ?started @ fst (thread_end False (Raised e)), snd (thread_end False (Raised e)))"
    using thread_run_for_items [OF len, of f 0 "Raised e"] unfolding fi by simp
  have wt: "worker_thread g R m remote = Active ?started (Raised e)"
    by (simp add: worker_thread_def Inl Let_def)
  show ?thesis
    unfolding wt run
    by (simp add: worker_init_failed [OF Inl] except_finally_def puts_append)
next
  case (Inr r)
  let ?gen = "stream_reddit_activity remote"
  let ?pre = "[Put starting_message, Call_user_me, Put connected_message]"
  have ev: "fst (initialize_reddit g R m) = [Call_user_me]"
    using Inr by (rule initialize_reddit_events)
  have ny: "yields ?pre = []" by simp
  have fi: "for_items f 0 (?pre @ fst ?gen)
      = (?pre @ fst (for_items f 0 (fst ?gen)), snd (for_items f 0 (fst ?gen)))"
    using ny by (rule for_items_no_yield)
  have len: "length (?pre @ fst ?gen) < n" using assms ev by simp
  have wt: "worker_thread g R m remote = Active (?pre @ fst ?gen) (snd ?gen)"
    by (simp add: worker_thread_def Inr Let_def ev)
  have run: "thread_run f 0 n (Active (?pre @ fst ?gen) (snd ?gen)) =
      (puts (?pre @ fst (for_items f 0 (fst ?gen)))
         @ fst (thread_end (snd (for_items f 0 (fst ?gen))) (snd ?gen)),
       snd (thread_end (snd (for_items f 0 (fst ?gen))) (snd ?gen)))"
    using thread_run_for_items [OF len, of f 0 "snd ?gen"] unfolding fi by simp
  show ?thesis
    unfolding wt run
    by (cases "snd ?gen"; cases "snd (for_items f 0 (fst ?gen))")
       (simp_all add: worker_init_ok [OF Inr] except_finally_def puts_append)
qed

section \<open>The claims\<close>

subsection \<open>C1: missing credentials\<close>

text \<open>
  C1. The claim: with a required variable missing, initialisation fails with a
  \<open>ValueError\<close> naming it, before any network call. The code builds
  \<open>required_env_vars\<close> and never reads it. With \<open>REDDIT_PASSWORD\<close> unset the
  function constructs the client and calls \<open>reddit.user.me()\<close>; when that call is
  rejected the result is a \<open>RuntimeError\<close>, and when it is answered the function
  returns the client.
\<close>

theorem initialize_reddit_missing_password:
  "[''REDDIT_CLIENT_ID'' \<mapsto> ''id'', ''REDDIT_CLIENT_SECRET'' \<mapsto> ''secret'',
    ''REDDIT_USER_AGENT'' \<mapsto> ''agent'', ''REDDIT_USERNAME'' \<mapsto> ''bot'']
     ''REDDIT_PASSWORD'' = None
   \<and> ''REDDIT_PASSWORD'' \<in> set required_env_vars
   \<and> initialize_reddit
       [''REDDIT_CLIENT_ID'' \<mapsto> ''id'', ''REDDIT_CLIENT_SECRET'' \<mapsto> ''secret'',
        ''REDDIT_USER_AGENT'' \<mapsto> ''agent'', ''REDDIT_USERNAME'' \<mapsto> ''bot'']
       (\<lambda>c. Inr c) (\<lambda>r. Inl (Exn OAuthException ''invalid_grant''))
     = ([Call_user_me],
        Inl (Exn RuntimeError ''Failed to verify Reddit authentication: invalid_grant''))
   \<and> initialize_reddit
       [''REDDIT_CLIENT_ID'' \<mapsto> ''id'', ''REDDIT_CLIENT_SECRET'' \<mapsto> ''secret'',
        ''REDDIT_USER_AGENT'' \<mapsto> ''agent'', ''REDDIT_USERNAME'' \<mapsto> ''bot'']
       (\<lambda>c. Inr c) (\<lambda>r. Inr ''bot'')
     = ([Call_user_me],
        Inr \<lparr>client_id = Some ''id'', client_secret = Some ''secret'',
             user_agent = Some ''agent'', username = Some ''bot'', password = None\<rparr>)"
  by (simp add: initialize_reddit_def required_env_vars_def auth_failures_def isinstance_def)

subsection \<open>C2: the sleeps of consecutive transient failures\<close>

text \<open>
  C2. The claim: over consecutive transient failures the sleeps grow from 5 by the
  factor 1.5 up to 120. The docstring of the function promises exponential backoff.
  The code sets \<open>backoff_seconds = 5\<close> at line 105, right after the two stream
  objects are built and before either is polled, so every failure raised by a poll
  meets \<open>backoff_seconds = 5\<close>: in every run in which the streams open, each sleep is
  7 seconds (a transient failure) or 15 seconds (an unexpected one). The sleeps never
  grow and 120 is never reached.
\<close>

theorem sleeps_never_grow:
  assumes "streams_open remote"
  shows "set (sleeps (fst (stream_reddit_activity remote))) \<subseteq> {7, 15}"
  using streaming_sleeps [OF assms, of At_connect 5 "[]" "[]"]
  by (simp add: stream_reddit_activity_def)

text \<open>
  C2, at a concrete input: five consecutive timeouts, each raised by the first poll of
  a fresh submissions stream, then a connection that works. The sleeps are 7, 7, 7, 7
  and 7 seconds.
\<close>

theorem sleeps_never_grow_witness:
  "streams_open
     [Streams [Raise (Exn RequestException ''timed out'')] [],
      Streams [Raise (Exn RequestException ''timed out'')] [],
      Streams [Raise (Exn RequestException ''timed out'')] [],
      Streams [Raise (Exn RequestException ''timed out'')] [],
      Streams [Raise (Exn RequestException ''timed out'')] [],
      Streams [Pause] [Pause]]
   \<and> set (sleeps (fst (stream_reddit_activity
     [Streams [Raise (Exn RequestException ''timed out'')] [],
      Streams [Raise (Exn RequestException ''timed out'')] [],
      Streams [Raise (Exn RequestException ''timed out'')] [],
      Streams [Raise (Exn RequestException ''timed out'')] [],
      Streams [Raise (Exn RequestException ''timed out'')] [],
      Streams [Pause] [Pause]]))) \<subseteq> {7, 15}
   \<and> sleeps (fst (stream_reddit_activity
     [Streams [Raise (Exn RequestException ''timed out'')] [],
      Streams [Raise (Exn RequestException ''timed out'')] [],
      Streams [Raise (Exn RequestException ''timed out'')] [],
      Streams [Raise (Exn RequestException ''timed out'')] [],
      Streams [Raise (Exn RequestException ''timed out'')] [],
      Streams [Pause] [Pause]])) = [7, 7, 7, 7, 7]"
proof -
  let ?remote = "[Streams [Raise (Exn RequestException ''timed out'')] [],
      Streams [Raise (Exn RequestException ''timed out'')] [],
      Streams [Raise (Exn RequestException ''timed out'')] [],
      Streams [Raise (Exn RequestException ''timed out'')] [],
      Streams [Raise (Exn RequestException ''timed out'')] [],
      Streams [Pause] [Pause]]"
  have h: "streams_open ?remote" by simp
  have v: "sleeps (fst (stream_reddit_activity ?remote)) = [7, 7, 7, 7, 7]"
    by (simp add: stream_reddit_activity_def handler_defs emit_def)
  from sleeps_never_grow [OF h] h v show ?thesis by blast
qed

subsection \<open>C3: the sleep after a reconnection\<close>




subsection \<open>C4: the termination message\<close>

text \<open>
  C4, as amended. What reaches the user's log is the text that \<open>stop_monitoring\<close>
  logs itself when Stop is pressed, and the queue, in the order of the puts. A worker
  that leaves, whichever way, puts \<open>Stopping Reddit monitor.\<close> exactly once, as its
  last message, and nothing after it; the text is the same for every kind of exit, and
  after an \<open>Exception\<close> the message before it is \<open>Error: ...\<close>. So the user is
  shown the stop text once for every press of Stop that took effect and once for every
  worker that has left: twice for a stop that the worker then observes, once for a
  failure. With an access error on the first poll the log holds the start message,
  the connection message, the error message and the stop message: no item message.
  A worker taken alone for enough steps puts what \<open>reddit_monitor_worker\<close> puts.
\<close>

theorem termination_messages_at_consumer:
  "stop_messages (actions (\<lambda>n. worker_thread g R m (remote n)) init_system acts)
     = stops_pressed (\<lambda>n. worker_thread g R m (remote n)) init_system acts
       + exited_workers (actions (\<lambda>n. worker_thread g R m (remote n)) init_system acts)
   \<and> (snd (thread_step r (Active evs out)) = Exited x \<longrightarrow>
        fst (thread_step r (Active evs out)) \<noteq> []
        \<and> last (fst (thread_step r (Active evs out))) = stopping_message
        \<and> (\<forall>e. x = Failed e \<longrightarrow>
               fst (thread_step r (Active evs out)) = [error_message e, stopping_message]))
   \<and> thread_step r (Exited x) = ([], Exited x)
   \<and> log_area (check_queue a) = log_area a @ message_queue a
   \<and> (snd (initialize_reddit g R m) = Inr rd \<and> matching_clause err = Access \<longrightarrow>
        log_area (gui (actions (\<lambda>n. worker_thread g R m (Streams (Raise err # s) c # rest))
                         init_system
                         [Press Press_start, Step 0, Step 0, Step 0, Step 0, Timer]))
          = [starting_message, connected_message, error_message err, stopping_message]
        \<and> workers (actions (\<lambda>n. worker_thread g R m (Streams (Raise err # s) c # rest))
                         init_system
                         [Press Press_start, Step 0, Step 0, Step 0, Step 0, Timer])
          = [Exited (Failed err)])
   \<and> (length (fst (initialize_reddit g R m)) + length (fst (stream_reddit_activity rm)) + 2
         < k \<longrightarrow>
        thread_run f 0 k (worker_thread g R m rm) =
          (puts (fst (reddit_monitor_worker g R m rm f)),
           if snd (reddit_monitor_worker g R m rm f) = Still_running then Active [] Waiting
           else Exited (snd (reddit_monitor_worker g R m rm f))))
   \<and> (snd (reddit_monitor_worker g R m rm f) \<noteq> Still_running \<longrightarrow>
        (\<exists>pre. puts (fst (reddit_monitor_worker g R m rm f)) = pre @ [stopping_message]
             \<and> stopping_message \<notin> set pre
             \<and> (\<forall>e. snd (reddit_monitor_worker g R m rm f) = Failed e
                    \<longrightarrow> (\<exists>pre'. pre = pre' @ [error_message e]))))"
proof -
  let ?spawn = "\<lambda>n. worker_thread g R m (remote n)"
  have q: "\<forall>n. quiet (?spawn n) \<and> alive (?spawn n)"
    by (simp add: worker_thread_quiet)
  have 1: "stop_messages (actions ?spawn init_system acts)
     = stops_pressed ?spawn init_system acts + exited_workers (actions ?spawn init_system acts)"
    using actions_count [OF q, of init_system acts]
    by (simp add: init_system_def init_app_def stop_messages_def exited_workers_def)
  have 2: "snd (thread_step r (Active evs out)) = Exited x \<longrightarrow>
        fst (thread_step r (Active evs out)) \<noteq> []
        \<and> last (fst (thread_step r (Active evs out))) = stopping_message
        \<and> (\<forall>e. x = Failed e \<longrightarrow>
               fst (thread_step r (Active evs out)) = [error_message e, stopping_message])"
  proof (cases evs)
    case Nil
    then show ?thesis by (cases out) auto
  next
    case (Cons ev evs')
    then show ?thesis by (cases ev) (auto split: option.splits)
  qed
  have 3: "thread_step r (Exited x) = ([], Exited x)" by simp
  have 4: "log_area (check_queue a) = log_area a @ message_queue a"
    by (simp add: check_queue_def)
  have 5: "snd (initialize_reddit g R m) = Inr rd \<and> matching_clause err = Access \<longrightarrow>
        log_area (gui (actions (\<lambda>n. worker_thread g R m (Streams (Raise err # s) c # rest))
                         init_system
                         [Press Press_start, Step 0, Step 0, Step 0, Step 0, Timer]))
          = [starting_message, connected_message, error_message err, stopping_message]
        \<and> workers (actions (\<lambda>n. worker_thread g R m (Streams (Raise err # s) c # rest))
                         init_system
                         [Press Press_start, Step 0, Step 0, Step 0, Step 0, Timer])
          = [Exited (Failed err)]"
  proof (intro impI, elim conjE)
    assume init: "snd (initialize_reddit g R m) = Inr rd" and acc: "matching_clause err = Access"
    have wt: "worker_thread g R m (Streams (Raise err # s) c # rest)
        = Active [Put starting_message, Call_user_me, Put connected_message] (Raised err)"
      by (simp add: worker_thread_def init Let_def initialize_reddit_events [OF init]
            stream_reddit_activity_def access_reraised [OF acc])
    show "log_area (gui (actions (\<lambda>n. worker_thread g R m (Streams (Raise err # s) c # rest))
                         init_system
                         [Press Press_start, Step 0, Step 0, Step 0, Step 0, Timer]))
          = [starting_message, connected_message, error_message err, stopping_message]
        \<and> workers (actions (\<lambda>n. worker_thread g R m (Streams (Raise err # s) c # rest))
                         init_system
                         [Press Press_start, Step 0, Step 0, Step 0, Step 0, Timer])
          = [Exited (Failed err)]"
      unfolding wt
      by (simp add: init_system_def init_app_def start_monitoring_def check_queue_def
            access_is_Exception [OF acc])
  qed
  have 6: "length (fst (initialize_reddit g R m)) + length (fst (stream_reddit_activity rm)) + 2
         < k \<longrightarrow>
        thread_run f 0 k (worker_thread g R m rm) =
          (puts (fst (reddit_monitor_worker g R m rm f)),
           if snd (reddit_monitor_worker g R m rm f) = Still_running then Active [] Waiting
           else Exited (snd (reddit_monitor_worker g R m rm f)))"
    using worker_thread_agrees [of g R m rm k f] by simp
  have 7: "snd (reddit_monitor_worker g R m rm f) \<noteq> Still_running \<longrightarrow>
        (\<exists>pre. puts (fst (reddit_monitor_worker g R m rm f)) = pre @ [stopping_message]
             \<and> stopping_message \<notin> set pre
             \<and> (\<forall>e. snd (reddit_monitor_worker g R m rm f) = Failed e
                    \<longrightarrow> (\<exists>pre'. pre = pre' @ [error_message e])))"
    using worker_exit_messages [of g R m rm f] by (rule impI)
  from 1 2 3 4 5 6 7 show ?thesis by (intro conjI)
qed

text \<open>
  C4, witness: Stop is pressed and the worker observes it at its next item, so the
  user is shown the stop text twice; and a \<open>NotFound\<close> on the first poll.
\<close>

theorem termination_messages_at_consumer_witness:
  "stop_messages (actions (\<lambda>n. worker_thread (\<lambda>v. Some ''x'') (\<lambda>c. Inr c) (\<lambda>r. Inr ''bot'')
          [Streams [Item \<lparr>sub_subreddit = ''learnpython'', sub_title = ''Hi'',
                          sub_permalink = ''/r/learnpython/1''\<rparr>] []]) init_system
      [Press Press_start, Step 0, Step 0, Step 0, Timer, Press Press_stop, Step 0, Timer]) = 2
   \<and> log_area (gui (actions (\<lambda>n. worker_thread (\<lambda>v. Some ''x'') (\<lambda>c. Inr c)
                               (\<lambda>r. Inr ''bot'') [Streams [Raise (Exn NotFound ''404'')] []])
                      init_system [Press Press_start, Step 0, Step 0, Step 0, Step 0, Timer]))
     = [starting_message, connected_message, error_message (Exn NotFound ''404''),
        stopping_message]"
proof -
  let ?g = "\<lambda>v::string. Some ''x''"
  let ?R = "\<lambda>c::credentials. (Inr c :: exn + credentials)"
  let ?m = "\<lambda>r::credentials. (Inr ''bot'' :: exn + string)"
  let ?rd = "\<lparr>client_id = Some ''x'', client_secret = Some ''x'', user_agent = Some ''x'',
            username = Some ''x'', password = Some ''x''\<rparr>"
  let ?spawn = "(\<lambda>n. worker_thread (\<lambda>v. Some ''x'') (\<lambda>c. Inr c) (\<lambda>r. Inr ''bot'')
          [Streams [Item \<lparr>sub_subreddit = ''learnpython'', sub_title = ''Hi'',
                          sub_permalink = ''/r/learnpython/1''\<rparr>] []])"
  let ?acts = "[Press Press_start, Step 0, Step 0, Step 0, Timer, Press Press_stop, Step 0, Timer]"
  have n1: "stops_pressed ?spawn init_system ?acts = 1"
    by (simp add: worker_thread_def initialize_reddit_def Let_def stream_reddit_activity_def
          emit_def init_system_def init_app_def start_monitoring_def stop_monitoring_def
          check_queue_def)
  have n2: "exited_workers (actions ?spawn init_system ?acts) = 1"
    by (simp add: worker_thread_def initialize_reddit_def Let_def stream_reddit_activity_def
          emit_def init_system_def init_app_def start_monitoring_def stop_monitoring_def
          check_queue_def exited_workers_def)
  have count: "stop_messages (actions ?spawn init_system ?acts)
      = stops_pressed ?spawn init_system ?acts
        + exited_workers (actions ?spawn init_system ?acts)"
    by (rule termination_messages_at_consumer
      [where g = ?g and R = ?R and m = ?m and acts = ?acts
         and remote = "\<lambda>n. [Streams [Item \<lparr>sub_subreddit = ''learnpython'', sub_title = ''Hi'',
                          sub_permalink = ''/r/learnpython/1''\<rparr>] []]", THEN conjunct1])
  have 1: "stop_messages (actions ?spawn init_system ?acts) = 2"
    unfolding count n1 n2 by simp
  have h1: "snd (initialize_reddit ?g ?R ?m) = Inr ?rd"
    by (simp add: initialize_reddit_def)
  have h2: "matching_clause (Exn NotFound ''404'') = Access"
    by (simp add: matching_clause_def isinstance_def)
  note access = termination_messages_at_consumer
      [where g = ?g and R = ?R and m = ?m and rd = ?rd and err = "Exn NotFound ''404''"
         and s = "[]" and c = "[]" and rest = "[]",
       THEN conjunct2, THEN conjunct2, THEN conjunct2, THEN conjunct2, THEN conjunct1,
       rule_format]
  have 2: "log_area (gui (actions (\<lambda>n. worker_thread ?g ?R ?m
                               [Streams [Raise (Exn NotFound ''404'')] []])
                      init_system [Press Press_start, Step 0, Step 0, Step 0, Step 0, Timer]))
     = [starting_message, connected_message, error_message (Exn NotFound ''404''),
        stopping_message]"
    by (rule access [OF conjI [OF h1 h2], THEN conjunct1])
  from 1 2 show ?thesis by (rule conjI)
qed

text \<open>
  C4, counterexample to the claim as stated. In the first run Stop is pressed and the
  worker observes it at its next item: the log shows the stop text twice, once from
  \<open>stop_monitoring\<close> and once from the worker. In the second run the first poll
  raises an access error: the log ends with the same text. The user is not shown
  exactly one termination message, and its text does not tell the two exits apart.
\<close>

theorem termination_message_twice_and_same:
  "log_area (gui (actions (\<lambda>n. worker_thread (\<lambda>v. Some ''x'') (\<lambda>c. Inr c) (\<lambda>r. Inr ''bot'')
          [Streams [Item \<lparr>sub_subreddit = ''learnpython'', sub_title = ''Hi'',
                          sub_permalink = ''/r/learnpython/1''\<rparr>] []]) init_system
      [Press Press_start, Step 0, Step 0, Step 0, Timer, Press Press_stop, Step 0, Timer]))
     = [starting_message, connected_message, stopping_message, stopping_message]
   \<and> workers (actions (\<lambda>n. worker_thread (\<lambda>v. Some ''x'') (\<lambda>c. Inr c) (\<lambda>r. Inr ''bot'')
          [Streams [Item \<lparr>sub_subreddit = ''learnpython'', sub_title = ''Hi'',
                          sub_permalink = ''/r/learnpython/1''\<rparr>] []]) init_system
      [Press Press_start, Step 0, Step 0, Step 0, Timer, Press Press_stop, Step 0, Timer]) = [Exited Stopped]
   \<and> log_area (gui (actions (\<lambda>n. worker_thread (\<lambda>v. Some ''x'') (\<lambda>c. Inr c) (\<lambda>r. Inr ''bot'')
          [Streams [Raise (Exn Forbidden ''403'')] []]) init_system
      [Press Press_start, Step 0, Step 0, Step 0, Step 0, Timer]))
     = [starting_message, connected_message, error_message (Exn Forbidden ''403''),
        stopping_message]
   \<and> workers (actions (\<lambda>n. worker_thread (\<lambda>v. Some ''x'') (\<lambda>c. Inr c) (\<lambda>r. Inr ''bot'')
          [Streams [Raise (Exn Forbidden ''403'')] []]) init_system
      [Press Press_start, Step 0, Step 0, Step 0, Step 0, Timer]) = [Exited (Failed (Exn Forbidden ''403''))]"
  by (simp add: worker_thread_def initialize_reddit_def Let_def stream_reddit_activity_def
        handler_defs emit_def init_system_def init_app_def start_monitoring_def
        stop_monitoring_def check_queue_def is_Exception_def)

subsection \<open>C5: one pass of the merge\<close>

text \<open>
  C5, as amended. A pass drains the submissions source until it reports empty,
  yielding each item, then the comments source until it reports empty, yielding each
  item, and then sleeps the half second, whether or not the pass yielded anything.
\<close>

theorem merge_pass:
  "stream_loop In_submissions b (map Item xs @ Pause # s) (map Item ys @ Pause # c) remote =
     (map (\<lambda>x. Yield (Submission x)) xs @ map (\<lambda>y. Yield (Comment y)) ys
        @ Idle_sleep # fst (stream_loop In_submissions b s c remote),
      snd (stream_loop In_submissions b s c remote))"
  by (simp add: one_pass prepend_def pass_events_def)

text \<open>
  C5, witness: a pass with one comment.
\<close>

theorem merge_pass_witness:
  "stream_loop In_submissions 5 [Pause]
       [Item \<lparr>com_subreddit = ''learnpython'', com_body = ''Thanks'',
              com_permalink = ''/r/learnpython/1/c''\<rparr>, Pause] [] =
     ([Yield (Comment \<lparr>com_subreddit = ''learnpython'', com_body = ''Thanks'',
                       com_permalink = ''/r/learnpython/1/c''\<rparr>), Idle_sleep], Waiting)"
  using merge_pass [of 5 "[]" "[]"
      "[\<lparr>com_subreddit = ''learnpython'', com_body = ''Thanks'',
         com_permalink = ''/r/learnpython/1/c''\<rparr>]" "[]" "[]"]
  by simp

text \<open>
  C5, counterexample to the claim as stated: the pass yields a submission and the
  idle sleep is performed all the same.
\<close>

theorem idle_sleep_after_yield:
  "stream_reddit_activity
     [Streams [Item \<lparr>sub_subreddit = ''learnpython'', sub_title = ''Hi'',
                     sub_permalink = ''/r/learnpython/1''\<rparr>, Pause] [Pause]] =
     ([Yield (Submission \<lparr>sub_subreddit = ''learnpython'', sub_title = ''Hi'',
                          sub_permalink = ''/r/learnpython/1''\<rparr>), Idle_sleep], Waiting)"
  by (simp add: stream_reddit_activity_def emit_def)

subsection \<open>C6: the merged output\<close>

text \<open>
  C6, as amended. Within one connection every item that either stream object returns
  is yielded, in the order of the passes (the submissions of a pass, then its
  comments), up to the point where a stream does not answer again or raises: the items
  a drain returned before an exception cut it short are yielded before the exception is
  handled. Every pair of scripts has one of the four forms below, so the trace of every
  connection is fixed by this. Over a whole run the yielded items of one source are, in
  order, a subsequence of what the stream objects of that source held; nothing is said
  of an item a stream object held and had not returned when an exception ended its
  connection.
\<close>

theorem merged_output_items:
  "stream_loop At_connect b s0 c0
       (Streams (submissions_script ps @ map Item xs) (comments_script ps @ c) # remote)
     = (concat (map pass_events ps) @ map (\<lambda>x. Yield (Submission x)) xs, Waiting)
   \<and> stream_loop At_connect b s0 c0
       (Streams (submissions_script ps @ map Item xs @ Raise e # s)
                (comments_script ps @ c) # remote)
     = prepend (concat (map pass_events ps) @ map (\<lambda>x. Yield (Submission x)) xs)
         (case except_clauses e 5 of
            Reraise \<Rightarrow> ([], Raised e)
          | Retry n b' \<Rightarrow> emit (Sleep n) (stream_loop At_connect b' [] [] remote))
   \<and> stream_loop At_connect b s0 c0
       (Streams (submissions_script ps @ map Item xs @ Pause # s)
                (comments_script ps @ map Item ys) # remote)
     = (concat (map pass_events ps) @ map (\<lambda>x. Yield (Submission x)) xs
          @ map (\<lambda>y. Yield (Comment y)) ys, Waiting)
   \<and> stream_loop At_connect b s0 c0
       (Streams (submissions_script ps @ map Item xs @ Pause # s)
                (comments_script ps @ map Item ys @ Raise e # c) # remote)
     = prepend (concat (map pass_events ps) @ map (\<lambda>x. Yield (Submission x)) xs
                  @ map (\<lambda>y. Yield (Comment y)) ys)
         (case except_clauses e 5 of
            Reraise \<Rightarrow> ([], Raised e)
          | Retry n b' \<Rightarrow> emit (Sleep n) (stream_loop At_connect b' [] [] remote))
   \<and> connection_form s c
   \<and> subseq (yielded_submissions (fst (stream_reddit_activity remote)))
             (offered_submissions remote)
   \<and> subseq (yielded_comments (fst (stream_reddit_activity remote)))
             (offered_comments remote)"
proof -
  have 1: "stream_loop At_connect b s0 c0
       (Streams (submissions_script ps @ map Item xs) (comments_script ps @ c) # remote)
     = (concat (map pass_events ps) @ map (\<lambda>x. Yield (Submission x)) xs, Waiting)"
    by (simp add: many_passes drain_submissions_end prepend_def)
  have 2: "stream_loop At_connect b s0 c0
       (Streams (submissions_script ps @ map Item xs @ Raise e # s)
                (comments_script ps @ c) # remote)
     = prepend (concat (map pass_events ps) @ map (\<lambda>x. Yield (Submission x)) xs)
         (case except_clauses e 5 of
            Reraise \<Rightarrow> ([], Raised e)
          | Retry n b' \<Rightarrow> emit (Sleep n) (stream_loop At_connect b' [] [] remote))"
    by (simp add: many_passes drain_submissions prepend_def)
  have 3: "stream_loop At_connect b s0 c0
       (Streams (submissions_script ps @ map Item xs @ Pause # s)
                (comments_script ps @ map Item ys) # remote)
     = (concat (map pass_events ps) @ map (\<lambda>x. Yield (Submission x)) xs
          @ map (\<lambda>y. Yield (Comment y)) ys, Waiting)"
    by (simp add: many_passes drain_submissions drain_comments_end prepend_def)
  have 4: "stream_loop At_connect b s0 c0
       (Streams (submissions_script ps @ map Item xs @ Pause # s)
                (comments_script ps @ map Item ys @ Raise e # c) # remote)
     = prepend (concat (map pass_events ps) @ map (\<lambda>x. Yield (Submission x)) xs
                  @ map (\<lambda>y. Yield (Comment y)) ys)
         (case except_clauses e 5 of
            Reraise \<Rightarrow> ([], Raised e)
          | Retry n b' \<Rightarrow> emit (Sleep n) (stream_loop At_connect b' [] [] remote))"
    by (simp add: many_passes drain_submissions drain_comments prepend_def)
  have 5: "subseq (yielded_submissions (fst (stream_reddit_activity remote)))
             (offered_submissions remote)"
    using yielded_submissions_subseq [of At_connect 5 "[]" "[]" remote]
    by (simp add: stream_reddit_activity_def)
  have 6: "subseq (yielded_comments (fst (stream_reddit_activity remote)))
             (offered_comments remote)"
    using yielded_comments_subseq [of At_connect 5 "[]" "[]" remote]
    by (simp add: stream_reddit_activity_def)
  from 1 2 3 4 5 6 every_connection_form [of s c] show ?thesis by simp
qed

text \<open>
  C6, witness: a pass with a comment, then a submission returned just before the
  submissions stream raises a server error. Both are yielded, the submission before
  the sleep.
\<close>

theorem merged_output_items_witness:
  "stream_loop At_connect 5 [] []
       [Streams
          [Pause,
           Item \<lparr>sub_subreddit = ''learnpython'', sub_title = ''Hi'',
                 sub_permalink = ''/r/learnpython/1''\<rparr>,
           Raise (Exn ServerError ''503'')]
          [Item \<lparr>com_subreddit = ''learnpython'', com_body = ''Thanks'',
                 com_permalink = ''/r/learnpython/1/c''\<rparr>, Pause]]
     = ([Yield (Comment \<lparr>com_subreddit = ''learnpython'', com_body = ''Thanks'',
                         com_permalink = ''/r/learnpython/1/c''\<rparr>),
         Idle_sleep,
         Yield (Submission \<lparr>sub_subreddit = ''learnpython'', sub_title = ''Hi'',
                            sub_permalink = ''/r/learnpython/1''\<rparr>),
         Sleep 7], Waiting)"
proof -
  let ?x = "\<lparr>sub_subreddit = ''learnpython'', sub_title = ''Hi'',
                 sub_permalink = ''/r/learnpython/1''\<rparr>"
  let ?y = "\<lparr>com_subreddit = ''learnpython'', com_body = ''Thanks'',
                 com_permalink = ''/r/learnpython/1/c''\<rparr>"
  let ?e = "Exn ServerError ''503''"
  have s: "submissions_script [([], [?y])] @ map Item [?x] @ Raise ?e # []
      = [Pause, Item ?x, Raise ?e]"
    by (simp add: submissions_script_def)
  have c: "comments_script [([], [?y])] @ [] = [Item ?y, Pause]"
    by (simp add: comments_script_def)
  have p: "concat (map pass_events [([], [?y])]) = [Yield (Comment ?y), Idle_sleep]"
    by (simp add: pass_events_def)
  have h: "except_clauses ?e 5 = Retry 7 14"
    by (simp add: handler_defs)
  from merged_output_items
    [where b = 5 and ?s0.0 = "[]" and ?c0.0 = "[]" and ps = "[([], [?y])]" and xs = "[?x]"
       and e = ?e and s = "[]" and c = "[]" and remote = "[]"]
  show ?thesis unfolding s c p h by (simp add: prepend_def emit_def)
qed

text \<open>
  C6, counterexample to the claim as stated: a comment arrives on the comments
  stream after its first poll; the submissions stream raises a server error before
  the comments stream is polled again; the worker sleeps, then opens two new stream
  objects (with \<open>skip_existing=True\<close>) that do not return the comment. It is never
  yielded.
\<close>

theorem pending_comment_lost:
  "offered_comments
     [Streams [Pause, Raise (Exn ServerError ''503'')]
        [Pause, Item \<lparr>com_subreddit = ''learnpython'', com_body = ''Thanks'',
                      com_permalink = ''/r/learnpython/1/c''\<rparr>, Pause],
      Streams [Pause, Pause] [Pause, Pause]]
     = [\<lparr>com_subreddit = ''learnpython'', com_body = ''Thanks'',
         com_permalink = ''/r/learnpython/1/c''\<rparr>]
   \<and> stream_reddit_activity
     [Streams [Pause, Raise (Exn ServerError ''503'')]
        [Pause, Item \<lparr>com_subreddit = ''learnpython'', com_body = ''Thanks'',
                      com_permalink = ''/r/learnpython/1/c''\<rparr>, Pause],
      Streams [Pause, Pause] [Pause, Pause]]
     = ([Idle_sleep, Sleep 7, Idle_sleep, Idle_sleep], Waiting)
   \<and> yields (fst (stream_reddit_activity
     [Streams [Pause, Raise (Exn ServerError ''503'')]
        [Pause, Item \<lparr>com_subreddit = ''learnpython'', com_body = ''Thanks'',
                      com_permalink = ''/r/learnpython/1/c''\<rparr>, Pause],
      Streams [Pause, Pause] [Pause, Pause]])) = []"
  by (simp add: stream_reddit_activity_def handler_defs emit_def)

subsection \<open>C7: cancellation\<close>

text \<open>
  C7, as amended. Once the worker reads \<open>self.running\<close> as false it delivers no
  further item: the read is followed by the stop message and by nothing else, and the
  worker has stopped. The flag is read once for each item the generator yields and at
  no other point: never more often than there are yields, and exactly as often while it
  stays true.
\<close>

theorem cancellation_observed:
  "(Poll_running False \<in> set (fst (reddit_monitor_worker g R m remote f)) \<longrightarrow>
      (\<exists>pre. fst (reddit_monitor_worker g R m remote f)
                = pre @ [Poll_running False, Put stopping_message]
            \<and> Poll_running False \<notin> set pre)
      \<and> snd (reddit_monitor_worker g R m remote f) = Stopped)
   \<and> length (polls (fst (reddit_monitor_worker g R m remote f)))
       \<le> length (yields (fst (stream_reddit_activity remote)))
   \<and> ((\<forall>k. f k) \<and> snd (initialize_reddit g R m) = Inr r \<longrightarrow>
        length (polls (fst (reddit_monitor_worker g R m remote f)))
          = length (yields (fst (stream_reddit_activity remote))))"
  using worker_observes_stop [of g R m remote f] worker_polls_le [of g R m remote f]
    worker_polls_eq [of f g R m r remote]
  by blast

text \<open>
  C7, witness: two submissions, the flag cleared before the second is seen.
\<close>

theorem cancellation_observed_witness:
  "snd (reddit_monitor_worker (\<lambda>v. Some ''x'') (\<lambda>c. Inr c) (\<lambda>r. Inr ''bot'')
          [Streams [Item \<lparr>sub_subreddit = ''learnpython'', sub_title = ''Hi'',
                          sub_permalink = ''/r/learnpython/1''\<rparr>,
                    Item \<lparr>sub_subreddit = ''learnpython'', sub_title = ''Ho'',
                          sub_permalink = ''/r/learnpython/2''\<rparr>] []] (\<lambda>k. k < 1))
     = Stopped
   \<and> length (polls (fst (reddit_monitor_worker (\<lambda>v. Some ''x'') (\<lambda>c. Inr c)
          (\<lambda>r. Inr ''bot'')
          [Streams [Item \<lparr>sub_subreddit = ''learnpython'', sub_title = ''Hi'',
                          sub_permalink = ''/r/learnpython/1''\<rparr>,
                    Item \<lparr>sub_subreddit = ''learnpython'', sub_title = ''Ho'',
                          sub_permalink = ''/r/learnpython/2''\<rparr>] []] (\<lambda>k. True))))
     = 2"
proof -
  let ?g = "\<lambda>v::string. Some ''x''"
  let ?R = "\<lambda>c::credentials. (Inr c :: exn + credentials)"
  let ?m = "\<lambda>r::credentials. (Inr ''bot'' :: exn + string)"
  let ?r = "\<lparr>client_id = Some ''x'', client_secret = Some ''x'', user_agent = Some ''x'',
            username = Some ''x'', password = Some ''x''\<rparr>"
  let ?remote = "[Streams [Item \<lparr>sub_subreddit = ''learnpython'', sub_title = ''Hi'',
                          sub_permalink = ''/r/learnpython/1''\<rparr>,
                    Item \<lparr>sub_subreddit = ''learnpython'', sub_title = ''Ho'',
                          sub_permalink = ''/r/learnpython/2''\<rparr>] []]"
  have seen: "Poll_running False
      \<in> set (fst (reddit_monitor_worker ?g ?R ?m ?remote (\<lambda>k. k < 1)))"
    by (simp add: reddit_monitor_worker_def initialize_reddit_def stream_reddit_activity_def
          emit_def Let_def)
  have 1: "snd (reddit_monitor_worker ?g ?R ?m ?remote (\<lambda>k. k < 1)) = Stopped"
    using cancellation_observed [of ?g ?R ?m ?remote "\<lambda>k. k < 1" ?r] seen by blast
  have init: "snd (initialize_reddit ?g ?R ?m) = Inr ?r"
    by (simp add: initialize_reddit_def)
  have always: "\<forall>k::nat. True" by simp
  have n: "length (yields (fst (stream_reddit_activity ?remote))) = 2"
    by (simp add: stream_reddit_activity_def emit_def)
  have 2: "length (polls (fst (reddit_monitor_worker ?g ?R ?m ?remote (\<lambda>k. True)))) = 2"
    using cancellation_observed [of ?g ?R ?m ?remote "\<lambda>k. True" ?r] init always n by simp
  from 1 2 show ?thesis by simp
qed

text \<open>
  C7, counterexample to the claim as stated: \<open>self.running\<close> is false the whole
  time, the generator completes a merge pass and sleeps a backoff, and the worker has
  not read the flag once: it is still running.
\<close>

theorem no_poll_without_item:
  "reddit_monitor_worker (\<lambda>v. Some ''x'') (\<lambda>c. Inr c) (\<lambda>r. Inr ''bot'')
       [Streams [Pause, Raise (Exn RequestException ''timed out'')] [Pause]] (\<lambda>k. False)
     = ([Put starting_message, Call_user_me, Put connected_message, Idle_sleep, Sleep 7],
        Still_running)
   \<and> polls (fst (reddit_monitor_worker (\<lambda>v. Some ''x'') (\<lambda>c. Inr c) (\<lambda>r. Inr ''bot'')
       [Streams [Pause, Raise (Exn RequestException ''timed out'')] [Pause]] (\<lambda>k. False)))
     = []"
  by (simp add: reddit_monitor_worker_def initialize_reddit_def stream_reddit_activity_def
        handler_defs emit_def Let_def)

subsection \<open>C8: the policy for each exception\<close>

text \<open>
  C8. The claim: access and authentication errors end the stream at once, transient
  network errors are retried with exponential backoff, any other error is retried
  after a fixed delay. The five \<open>except\<close> clauses do classify that way
  (\<open>clauses_by_class\<close> above), and the transient clause multiplies and doubles
  \<open>backoff_seconds\<close>; but line 105 has set it back to 5 before any poll can fail, so
  a timeout, a server error and a malformed response, one after the other, are each
  retried after the same 7 seconds. The defect is the one of C2.
\<close>

theorem transient_errors_same_delay:
  "matching_clause (Exn RequestException ''timed out'') = Transient
   \<and> matching_clause (Exn ServerError ''503'') = Transient
   \<and> matching_clause (Exn ResponseException ''bad json'') = Transient
   \<and> stream_reddit_activity
       [Streams [Raise (Exn RequestException ''timed out'')] [],
        Streams [Pause] [Raise (Exn ServerError ''503'')],
        Streams [Raise (Exn ResponseException ''bad json'')] [],
        Streams [Pause] [Pause]]
     = ([Sleep 7, Sleep 7, Sleep 7, Idle_sleep], Waiting)"
  by (simp add: stream_reddit_activity_def handler_defs emit_def)

subsection \<open>C9: an unexpected error leaves the backoff alone\<close>

text \<open>
  C9. An exception that only the last clause catches is answered by a sleep of 15
  seconds, after which the outer loop goes round again; the clause leaves
  \<open>backoff_seconds\<close> as it found it, whatever its value.
\<close>

theorem unexpected_error_keeps_backoff:
  assumes "matching_clause e = Unexpected"
  shows "except_clauses e b = Retry 15 b
    \<and> stream_loop In_submissions b (Raise e # s) c remote
        = emit (Sleep 15) (stream_loop At_connect b [] [] remote)
    \<and> stream_loop In_comments b s (Raise e # c) remote
        = emit (Sleep 15) (stream_loop At_connect b [] [] remote)
    \<and> stream_loop At_connect b s c (Open_fails e # remote)
        = emit (Sleep 15) (stream_loop At_connect b [] [] remote)"
  using assms by (simp add: except_clauses_def)

text \<open>
  C9, witness: with \<open>backoff_seconds = 14\<close> an unexpected error sleeps 15 seconds,
  and the transient failure after it sleeps \<open>int (14 * 1.5) = 21\<close>.
\<close>

theorem unexpected_error_keeps_backoff_witness:
  "stream_loop At_connect 14 [] []
     [Open_fails (Exn Other_Exception ''boom''), Open_fails (Exn ServerError ''503'')]
     = ([Sleep 15, Sleep 21], Waiting)"
proof -
  have h: "matching_clause (Exn Other_Exception ''boom'') = Unexpected"
    by (simp add: matching_clause_def isinstance_def)
  have "stream_loop At_connect 14 [] [] [Open_fails (Exn ServerError ''503'')]
      = ([Sleep 21], Waiting)"
    by (simp add: handler_defs emit_def)
  then show ?thesis
    using unexpected_error_keeps_backoff
      [OF h, of 14 "[]" "[]" "[Open_fails (Exn ServerError ''503'')]"]
    by (simp add: emit_def)
qed

subsection \<open>C10: start and stop\<close>

text \<open>
  C10. The claim: start and stop are idempotent, hence at most one background worker
  exists at any time. The buttons do keep a second press of Start or of Stop from
  having an effect (\<open>buttons_invariant\<close> above), but \<open>stop_monitoring\<close> enables
  Start at once, while the worker it has told to stop is still alive: that worker
  reads \<open>self.running\<close> only when its stream yields the next item. Start, Stop,
  Start, pressed before an item arrives, starts a second worker and sets
  \<open>running\<close> back to true; the first worker then reads true and goes on. Both
  workers are alive and each new post is logged twice.
\<close>

theorem two_live_workers:
  "workers (actions (\<lambda>n. worker_thread (\<lambda>v. Some ''x'') (\<lambda>c. Inr c) (\<lambda>r. Inr ''bot'')
          [Streams [Item \<lparr>sub_subreddit = ''learnpython'', sub_title = ''Hi'',
                          sub_permalink = ''/r/learnpython/1''\<rparr>] []]) init_system
      [Press Press_start, Step 0, Step 0, Step 0, Timer, Press Press_stop, Press Press_start,
       Step (Suc 0), Step (Suc 0), Step (Suc 0), Step 0, Step (Suc 0), Timer])
     = [Active [] Waiting, Active [] Waiting]
   \<and> live_workers (actions (\<lambda>n. worker_thread (\<lambda>v. Some ''x'') (\<lambda>c. Inr c) (\<lambda>r. Inr ''bot'')
          [Streams [Item \<lparr>sub_subreddit = ''learnpython'', sub_title = ''Hi'',
                          sub_permalink = ''/r/learnpython/1''\<rparr>] []]) init_system
      [Press Press_start, Step 0, Step 0, Step 0, Timer, Press Press_stop, Press Press_start,
       Step (Suc 0), Step (Suc 0), Step (Suc 0), Step 0, Step (Suc 0), Timer]) = 2
   \<and> running (gui (actions (\<lambda>n. worker_thread (\<lambda>v. Some ''x'') (\<lambda>c. Inr c) (\<lambda>r. Inr ''bot'')
          [Streams [Item \<lparr>sub_subreddit = ''learnpython'', sub_title = ''Hi'',
                          sub_permalink = ''/r/learnpython/1''\<rparr>] []]) init_system
      [Press Press_start, Step 0, Step 0, Step 0, Timer, Press Press_stop, Press Press_start,
       Step (Suc 0), Step (Suc 0), Step (Suc 0), Step 0, Step (Suc 0), Timer]))
   \<and> log_area (gui (actions (\<lambda>n. worker_thread (\<lambda>v. Some ''x'') (\<lambda>c. Inr c) (\<lambda>r. Inr ''bot'')
          [Streams [Item \<lparr>sub_subreddit = ''learnpython'', sub_title = ''Hi'',
                          sub_permalink = ''/r/learnpython/1''\<rparr>] []]) init_system
      [Press Press_start, Step 0, Step 0, Step 0, Timer, Press Press_stop, Press Press_start,
       Step (Suc 0), Step (Suc 0), Step (Suc 0), Step 0, Step (Suc 0), Timer]))
     = [starting_message, connected_message, stopping_message,
        starting_message, connected_message,
        the (format_item (Submission \<lparr>sub_subreddit = ''learnpython'', sub_title = ''Hi'',
                          sub_permalink = ''/r/learnpython/1''\<rparr>)),
        the (format_item (Submission \<lparr>sub_subreddit = ''learnpython'', sub_title = ''Hi'',
                          sub_permalink = ''/r/learnpython/1''\<rparr>))]"
  by (simp add: worker_thread_def initialize_reddit_def Let_def stream_reddit_activity_def
        emit_def init_system_def init_app_def start_monitoring_def stop_monitoring_def
        check_queue_def live_workers_def)

end
